theory Spec2Isabelle
  imports Main "HOL-Library.Word" "HOL-Library.AList"
begin

section \<open>The client session engine of the MQTT broker (internal/clients/clients.go)\<close>

text \<open>
  A shallow embedding of \<^verbatim>\<open>clients.go\<close>. Go's fixed-width integers are words
  (\<^verbatim>\<open>byte\<close> is \<open>8 word\<close>, \<^verbatim>\<open>uint16\<close> is \<open>16 word\<close>, \<^verbatim>\<open>uint32\<close> is \<open>32 word\<close>,
  \<^verbatim>\<open>int64\<close> and \<^verbatim>\<open>uint64\<close> are \<open>64 word\<close>, read with \<open>sint\<close> or \<open>unat\<close>); Go's
  \<^verbatim>\<open>int\<close> is \<open>int\<close>. A Go map is an association list with distinct
  keys: the order of the list stands for the order in which \<^verbatim>\<open>range\<close> happens to
  produce the entries, which Go leaves unspecified, so a statement about every list is
  a statement about every iteration order. Methods mutate their receiver: the model
  passes the client in and returns the updated client. A reading of the clock
  (\<^verbatim>\<open>time.Now()\<close>) is a parameter, in nanoseconds. Diagnostic printing
  (\<^verbatim>\<open>fmt.Println\<close>) is left out.

  The names are those of the source, but for the fields \<^verbatim>\<open>r\<close>, \<^verbatim>\<open>w\<close> and
  \<^verbatim>\<open>done\<close> (here \<open>rdr\<close>, \<open>wtr\<close> and \<open>done_flag\<close>), the client's \<^verbatim>\<open>Username\<close>
  (\<open>CUsername\<close>), the will's \<^verbatim>\<open>Qos\<close> and \<^verbatim>\<open>Retain\<close> (\<open>LQos\<close>, \<open>LRetain\<close>) and the
  methods of the in-flight table (\<open>InFlight_Set\<close> and so on), which would clash with
  variables, with a keyword or with one another.
\<close>

subsection \<open>Data\<close>

type_synonym byte = "8 word"

datatype error =
    ErrConnectionClosed
  | ErrOversizedLengthIndicator
  | ErrNoValidPacket byte
  | ErrInsufficientBytes
  | ErrExternal nat

datatype panic = IndexOutOfRange

text \<open>
  Modelled from the spec: the fixed header and the packet of the codec (package
  \<^verbatim>\<open>packets\<close>, not among the sources), with the fields \<^verbatim>\<open>clients.go\<close> reads
  and writes. The remaining fields of a packet are in \<open>Payload\<close>.
\<close>

record FixedHeader =
  Type :: byte
  Dup :: bool
  Qos :: byte
  Retain :: bool
  Remaining :: int

record Packet =
  FixedHeader :: FixedHeader
  PacketID :: "16 word"
  ClientIdentifier :: string
  Username :: "byte list"
  CleanSession :: bool
  Keepalive :: "16 word"
  WillFlag :: bool
  WillTopic :: string
  WillMessage :: "byte list"
  WillQos :: byte
  WillRetain :: bool
  Payload :: "byte list"

text \<open>
  Modelled from the spec: the packet kinds of the codec, CONNECT through DISCONNECT,
  with the control packet type numbers of MQTT 3.1.1.
\<close>

definition Connect :: byte where "Connect = 1"
definition Connack :: byte where "Connack = 2"
definition Publish :: byte where "Publish = 3"
definition Puback :: byte where "Puback = 4"
definition Pubrec :: byte where "Pubrec = 5"
definition Pubrel :: byte where "Pubrel = 6"
definition Pubcomp :: byte where "Pubcomp = 7"
definition Subscribe :: byte where "Subscribe = 8"
definition Suback :: byte where "Suback = 9"
definition Unsubscribe :: byte where "Unsubscribe = 10"
definition Unsuback :: byte where "Unsuback = 11"
definition Pingreq :: byte where "Pingreq = 12"
definition Pingresp :: byte where "Pingresp = 13"
definition Disconnect :: byte where "Disconnect = 14"

definition known_kinds :: "byte list" where
  "known_kinds = [Connect, Connack, Publish, Puback, Pubrec, Pubrel, Pubcomp,
     Subscribe, Suback, Unsubscribe, Unsuback, Pingreq, Pingresp, Disconnect]"

text \<open>
  Modelled from the spec: the reader half of the byte channel (package \<^verbatim>\<open>circ\<close>,
  not among the sources). \<open>rbuf\<close> holds the bytes from the logical tail on that the
  channel delivers before it is stopped. \<^verbatim>\<open>read(n)\<close> returns a view of the first
  \<open>n\<close> of them and consumes nothing; where fewer than \<open>n\<close> ever arrive the blocked
  read ends with an error. \<^verbatim>\<open>commit_tail(n)\<close> advances the tail by \<open>n\<close>.
\<close>

record Reader =
  rID :: string
  rbuf :: "byte list"

definition Read :: "Reader \<Rightarrow> int \<Rightarrow> error + byte list" where
  "Read rd n = (if 0 \<le> n \<and> nat n \<le> length (rbuf rd) then Inr (take (nat n) (rbuf rd))
                else Inl ErrInsufficientBytes)"

definition CommitTail :: "Reader \<Rightarrow> int \<Rightarrow> Reader" where
  "CommitTail rd n = rd\<lparr>rbuf := drop (nat n) (rbuf rd)\<rparr>"

text \<open>
  Modelled from the spec: the writer half of the byte channel. \<open>Mu_acquired\<close> counts
  the acquisitions of the writer's lock \<^verbatim>\<open>Mu\<close> (a call that takes the lock releases it
  before it returns), \<open>wbuf\<close> holds the bytes pushed so far. What \<^verbatim>\<open>write(bytes)\<close>
  does is a parameter of the operations that call it: a function from the writer and the
  bytes to the writer afterwards, the count and the error.
\<close>

record Writer =
  wID :: string
  Mu_acquired :: nat
  wbuf :: "byte list"

type_synonym write_fn = "Writer \<Rightarrow> byte list \<Rightarrow> Writer \<times> int \<times> error option"

text \<open>The per-kind encoders and decoders of the codec are parameters as well.\<close>

type_synonym encode_fn = "byte \<Rightarrow> Packet \<Rightarrow> error + byte list"
type_synonym decode_fn = "byte \<Rightarrow> Packet \<Rightarrow> byte list \<Rightarrow> Packet \<times> error option"
type_synonym fh_decode_fn = "FixedHeader \<Rightarrow> byte \<Rightarrow> FixedHeader \<times> error option"

text \<open>
  The connection: only its deadline matters here. \<open>None\<close> is the zero
  \<^verbatim>\<open>time.Time\<close>, which disables the deadline.
\<close>

record Conn =
  deadline :: "int option"

record LWT =
  Topic :: string
  Message :: "byte list"
  LQos :: byte
  LRetain :: bool

record InFlightMessage =
  Packet :: Packet
  Sent :: "64 word"
  resends :: int

type_synonym InFlight = "(16 word \<times> InFlightMessage) list"

datatype once = Fresh | Running | Finished

record clientState =
  started :: int
  endedW :: int
  endedR :: int
  done_flag :: "64 word"
  endOnce :: once

text \<open>
  The client. \<open>conn = None\<close> is the nil connection. The auth controller \<^verbatim>\<open>AC\<close> is
  an opaque capability that no operation of this file consults; it is left out.
\<close>

record Client =
  conn :: "Conn option"
  rdr :: Reader
  wtr :: Writer
  ID :: string
  Subscriptions :: "(string \<times> byte) list"
  Listener :: string
  InFlight :: InFlight
  CUsername :: "byte list"
  keepalive :: "16 word"
  cleanSession :: bool
  packetID :: "32 word"
  LWT :: LWT
  state :: clientState

subsection \<open>Package constants\<close>

definition defaultKeepalive :: "16 word" where
  "defaultKeepalive = 10"

definition resendBackoff :: "int list" where
  "resendBackoff = [0, 1, 2, 10, 60, 120, 600, 3600, 21600]"

definition maxResends :: int where
  "maxResends = 6"

definition Second :: int where
  "Second = 1000000000"

subsection \<open>The registry\<close>

type_synonym Clients = "(string \<times> Client) list"

definition New :: Clients where
  "New = []"

definition Add :: "Clients \<Rightarrow> Client \<Rightarrow> Clients" where
  "Add cls val = AList.update (ID val) val cls"

definition Get :: "Clients \<Rightarrow> string \<Rightarrow> Client option" where
  "Get cls k = map_of cls k"

definition Len :: "Clients \<Rightarrow> int" where
  "Len cls = int (length cls)"

definition Delete :: "Clients \<Rightarrow> string \<Rightarrow> Clients" where
  "Delete cls k = AList.delete k cls"

fun GetByListener :: "Clients \<Rightarrow> string \<Rightarrow> Client list" where
  "GetByListener [] lid = []"
| "GetByListener ((k, v) # cls) lid =
     (if Listener v = lid \<and> done_flag (state v) = 0
      then v # GetByListener cls lid else GetByListener cls lid)"

subsection \<open>Deadline and packet ids\<close>

definition refreshDeadline :: "int \<Rightarrow> 16 word \<Rightarrow> Client \<Rightarrow> Client" where
  "refreshDeadline now ka cl =
     (case conn cl of
        None \<Rightarrow> cl
      | Some c \<Rightarrow>
          cl\<lparr>conn := Some (c\<lparr>deadline :=
            (if ka > 0 then Some (now + int (unat (ka + ka div 2)) * Second) else None)\<rparr>)\<rparr>)"

definition NewClient :: "int \<Rightarrow> Conn option \<Rightarrow> Reader \<Rightarrow> Writer \<Rightarrow> Client" where
  "NewClient now c rd wr =
     refreshDeadline now defaultKeepalive
       \<lparr>conn = c, rdr = rd, wtr = wr, ID = [], Subscriptions = [], Listener = [],
        InFlight = [], CUsername = [], keepalive = defaultKeepalive, cleanSession = False,
        packetID = 0,
        LWT = \<lparr>Topic = [], Message = [], LQos = 0, LRetain = False\<rparr>,
        state = \<lparr>started = 0, endedW = 0, endedR = 0, done_flag = 0, endOnce = Fresh\<rparr>\<rparr>"

definition NextPacketID :: "Client \<Rightarrow> Client \<times> 32 word" where
  "NextPacketID cl =
     (let i = packetID cl in
      if i = 65535 \<or> i = 0 then (cl\<lparr>packetID := 1\<rparr>, 1)
      else (cl\<lparr>packetID := i + 1\<rparr>, i + 1))"

text \<open>\<open>n\<close> calls of \<^verbatim>\<open>NextPacketID\<close>, one after the other: the ids they return, in order.\<close>

fun NextPacketID_calls :: "nat \<Rightarrow> Client \<Rightarrow> 32 word list" where
  "NextPacketID_calls 0 cl = []"
| "NextPacketID_calls (Suc n) cl =
     (case NextPacketID cl of (cl', v) \<Rightarrow> v # NextPacketID_calls n cl')"

text \<open>
  \<^verbatim>\<open>Identify\<close>; \<open>xid\<close> is the identifier that \<^verbatim>\<open>xid.New()\<close> generates when the CONNECT
  packet carries none.
\<close>

definition Identify :: "string \<Rightarrow> int \<Rightarrow> string \<Rightarrow> Packet \<Rightarrow> Client \<Rightarrow> Client" where
  "Identify xid now lid pk cl =
     (let cid = (if ClientIdentifier pk = [] then xid else ClientIdentifier pk);
          cl1 = cl\<lparr>Listener := lid, ID := cid,
                   rdr := (rdr cl)\<lparr>rID := cid @ '' READER''\<rparr>,
                   wtr := (wtr cl)\<lparr>wID := cid @ '' WRITER''\<rparr>,
                   CUsername := Username pk, cleanSession := CleanSession pk,
                   keepalive := Keepalive pk\<rparr>;
          cl2 = (if WillFlag pk
                 then cl1\<lparr>LWT := \<lparr>Topic = WillTopic pk, Message = WillMessage pk,
                                   LQos = WillQos pk, LRetain = WillRetain pk\<rparr>\<rparr>
                 else cl1)
      in refreshDeadline now (keepalive cl2) cl2)"

definition NoteSubscription :: "Client \<Rightarrow> string \<Rightarrow> byte \<Rightarrow> Client" where
  "NoteSubscription cl flt qos = cl\<lparr>Subscriptions := AList.update flt qos (Subscriptions cl)\<rparr>"

definition ForgetSubscription :: "Client \<Rightarrow> string \<Rightarrow> Client" where
  "ForgetSubscription cl flt = cl\<lparr>Subscriptions := AList.delete flt (Subscriptions cl)\<rparr>"

subsection \<open>Reading the fixed header\<close>

text \<open>
  Go's \<^verbatim>\<open>binary.Uvarint\<close>: the loop over the bytes with the index \<open>i\<close>, the value
  \<open>x\<close> and the shift \<open>s\<close>; it returns the value and the number of bytes read (0 when
  the buffer ends before a terminator, negative on overflow).
\<close>

definition MaxVarintLen64 :: nat where
  "MaxVarintLen64 = 10"

fun Uvarint_from :: "nat \<Rightarrow> 64 word \<Rightarrow> nat \<Rightarrow> byte list \<Rightarrow> 64 word \<times> int" where
  "Uvarint_from i x s [] = (0, 0)"
| "Uvarint_from i x s (b # bs) =
     (if i = MaxVarintLen64 then (0, - (int i + 1))
      else if b < 128 then
        (if i = MaxVarintLen64 - 1 \<and> b > 1 then (0, - (int i + 1))
         else (or x (push_bit s (ucast b)), int i + 1))
      else Uvarint_from (i + 1) (or x (push_bit s (ucast (and b 127)))) (s + 7) bs)"

definition Uvarint :: "byte list \<Rightarrow> 64 word \<times> int" where
  "Uvarint buf = Uvarint_from 0 0 0 buf"

text \<open>
  The loop of \<^verbatim>\<open>ReadFixedHeader\<close> (lines 260 to 278) with its variables \<open>buf\<close>,
  \<open>i\<close> and \<open>n\<close>. It ends with a panic (an index out of range), with an error, or
  at the \<^verbatim>\<open>break\<close> (or at \<open>n = 6\<close>) with the bytes gathered and \<open>n\<close>.
\<close>

function ReadFixedHeader_loop ::
  "Reader \<Rightarrow> byte list \<Rightarrow> nat \<Rightarrow> nat \<Rightarrow> panic + (error + byte list \<times> nat)" where
  "ReadFixedHeader_loop rd buf i n =
     (if n < 6 then
        (case Read rd (int n) of
           Inl e \<Rightarrow> Inr (Inl e)
         | Inr p \<Rightarrow>
             if length p \<le> i then Inl IndexOutOfRange
             else if p ! i < 128 then Inr (Inr (buf @ [p ! i], n))
             else if i + 1 = 4 then Inr (Inl ErrOversizedLengthIndicator)
             else ReadFixedHeader_loop rd (buf @ [p ! i]) (i + 1) (n + 1))
      else Inr (Inr (buf, n)))"
  by pat_completeness auto
termination
  by (relation "measure (\<lambda>(rd, buf, i, n). 6 - n)") auto

definition ReadFixedHeader ::
  "fh_decode_fn \<Rightarrow> Client \<Rightarrow> FixedHeader \<Rightarrow> panic + (Client \<times> FixedHeader \<times> error option)" where
  "ReadFixedHeader dec cl fh =
     (case Read (rdr cl) 1 of
        Inl e \<Rightarrow> Inr (cl, fh, Some e)
      | Inr p \<Rightarrow>
          (case p of
             [] \<Rightarrow> Inl IndexOutOfRange
           | p0 # _ \<Rightarrow>
               (case dec fh p0 of
                  (fh1, Some e) \<Rightarrow> Inr (cl, fh1, Some e)
                | (fh1, None) \<Rightarrow>
                    (case ReadFixedHeader_loop (rdr cl) [] 1 2 of
                       Inl pn \<Rightarrow> Inl pn
                     | Inr (Inl e) \<Rightarrow> Inr (cl, fh1, Some e)
                     | Inr (Inr (buf, n)) \<Rightarrow>
                         Inr (cl\<lparr>rdr := CommitTail (rdr cl) (int n)\<rparr>,
                              fh1\<lparr>Remaining := sint (fst (Uvarint buf))\<rparr>, None)))))"

text \<open>
  Modelled from the spec: the decoder of the control byte (\<^verbatim>\<open>FixedHeader.Decode\<close> of the
  codec), which "decodes packet type and flags": the type is the high nibble, the flags
  are bits 3 (DUP), 2 and 1 (QoS) and 0 (RETAIN). It is the decoder of the examples only;
  the statements about \<^verbatim>\<open>ReadFixedHeader\<close> hold for every decoder.
\<close>

definition Decode :: fh_decode_fn where
  "Decode fh b =
     (fh\<lparr>Type := drop_bit 4 b, Dup := bit b 3, Qos := and (drop_bit 1 b) 3, Retain := bit b 0\<rparr>,
      None)"

text \<open>The value of a remaining-length field: seven bits a byte, the low group first.\<close>

fun varint_value :: "byte list \<Rightarrow> nat" where
  "varint_value [] = 0"
| "varint_value (b # bs) = unat (and b 127) + 128 * varint_value bs"

subsection \<open>Reading and writing packets\<close>

definition zero_Packet :: Packet where
  "zero_Packet =
     \<lparr>FixedHeader = \<lparr>Type = 0, Dup = False, Qos = 0, Retain = False, Remaining = 0\<rparr>,
      PacketID = 0, ClientIdentifier = [], Username = [], CleanSession = False,
      Keepalive = 0, WillFlag = False, WillTopic = [], WillMessage = [], WillQos = 0,
      WillRetain = False, Payload = []\<rparr>"

text \<open>The \<^verbatim>\<open>switch\<close> of \<^verbatim>\<open>ReadPacket\<close> (lines 374 to 402), on the packet and the copied bytes.\<close>

definition decode_switch :: "decode_fn \<Rightarrow> Packet \<Rightarrow> byte list \<Rightarrow> Packet \<times> error option" where
  "decode_switch dec pk px =
     (let t = Type (FixedHeader pk) in
      if t = Connect then dec Connect pk px
      else if t = Connack then dec Connack pk px
      else if t = Publish then dec Publish pk px
      else if t = Puback then dec Puback pk px
      else if t = Pubrec then dec Pubrec pk px
      else if t = Pubrel then dec Pubrel pk px
      else if t = Pubcomp then dec Pubcomp pk px
      else if t = Subscribe then dec Subscribe pk px
      else if t = Suback then dec Suback pk px
      else if t = Unsubscribe then dec Unsubscribe pk px
      else if t = Unsuback then dec Unsuback pk px
      else if t = Pingreq then (pk, None)
      else if t = Pingresp then (pk, None)
      else if t = Disconnect then (pk, None)
      else (pk, Some (ErrNoValidPacket t)))"

definition ReadPacket :: "decode_fn \<Rightarrow> Client \<Rightarrow> FixedHeader \<Rightarrow> Client \<times> Packet \<times> error option" where
  "ReadPacket dec cl fh =
     (let pk = zero_Packet\<lparr>FixedHeader := fh\<rparr> in
      if Remaining (FixedHeader pk) = 0 then (cl, pk, None)
      else
        (case Read (rdr cl) (Remaining (FixedHeader pk)) of
           Inl e \<Rightarrow> (cl, pk, Some e)
         | Inr p \<Rightarrow>
             (case decode_switch dec pk p of
                (pk', err) \<Rightarrow>
                  (cl\<lparr>rdr := CommitTail (rdr cl) (Remaining (FixedHeader pk'))\<rparr>, pk', err))))"

text \<open>The \<^verbatim>\<open>switch\<close> of \<^verbatim>\<open>WritePacket\<close> (lines 419 to 450): the encoded bytes or the error.\<close>

definition encode_switch :: "encode_fn \<Rightarrow> Packet \<Rightarrow> error + byte list" where
  "encode_switch enc pk =
     (let t = Type (FixedHeader pk) in
      if t = Connect then enc Connect pk
      else if t = Connack then enc Connack pk
      else if t = Publish then enc Publish pk
      else if t = Puback then enc Puback pk
      else if t = Pubrec then enc Pubrec pk
      else if t = Pubrel then enc Pubrel pk
      else if t = Pubcomp then enc Pubcomp pk
      else if t = Subscribe then enc Subscribe pk
      else if t = Suback then enc Suback pk
      else if t = Unsubscribe then enc Unsubscribe pk
      else if t = Unsuback then enc Unsuback pk
      else if t = Pingreq then enc Pingreq pk
      else if t = Pingresp then enc Pingresp pk
      else if t = Disconnect then enc Disconnect pk
      else Inl (ErrNoValidPacket t))"

definition Mu_Lock :: "Writer \<Rightarrow> Writer" where
  "Mu_Lock wr = wr\<lparr>Mu_acquired := Suc (Mu_acquired wr)\<rparr>"

definition WritePacket ::
  "encode_fn \<Rightarrow> write_fn \<Rightarrow> int \<Rightarrow> Client \<Rightarrow> Packet \<Rightarrow> Client \<times> int \<times> error option" where
  "WritePacket enc wfn now cl pk =
     (if done_flag (state cl) = 1 then (cl, 0, Some ErrConnectionClosed)
      else
        (let cl1 = cl\<lparr>wtr := Mu_Lock (wtr cl)\<rparr> in
         case encode_switch enc pk of
           Inl e \<Rightarrow> (cl1, 0, Some e)
         | Inr bs \<Rightarrow>
             (case wfn (wtr cl1) bs of
                (w', n, Some e) \<Rightarrow> (cl1\<lparr>wtr := w'\<rparr>, n, Some e)
              | (w', n, None) \<Rightarrow>
                  (refreshDeadline now (keepalive cl1) (cl1\<lparr>wtr := w'\<rparr>), n, None))))"

subsection \<open>The in-flight table and the resend pass\<close>

definition InFlight_Set :: "InFlight \<Rightarrow> 16 word \<Rightarrow> InFlightMessage \<Rightarrow> InFlight" where
  "InFlight_Set tbl key v = AList.update key v tbl"

definition InFlight_Get :: "InFlight \<Rightarrow> 16 word \<Rightarrow> InFlightMessage option" where
  "InFlight_Get tbl key = map_of tbl key"

definition InFlight_Len :: "InFlight \<Rightarrow> int" where
  "InFlight_Len tbl = int (length tbl)"

definition InFlight_Delete :: "InFlight \<Rightarrow> 16 word \<Rightarrow> InFlight" where
  "InFlight_Delete tbl key = AList.delete key tbl"

text \<open>
  The condition of line 335,
  \<^verbatim>\<open>!force && (nt-tk.Sent < resendBackoff[tk.resends] || len(resendBackoff) < tk.resends)\<close>:
  \<^verbatim>\<open>&&\<close> and \<^verbatim>\<open>||\<close> evaluate from the left, so the table is indexed whenever
  \<open>force\<close> is false, and an index outside the table panics. The subtraction is that of
  \<^verbatim>\<open>int64\<close>.
\<close>

definition backoff_wait :: "bool \<Rightarrow> 64 word \<Rightarrow> InFlightMessage \<Rightarrow> panic + bool" where
  "backoff_wait force nt tk =
     (if force then Inr False
      else if resends tk < 0 \<or> int (length resendBackoff) \<le> resends tk then Inl IndexOutOfRange
      else Inr (sint (nt - Sent tk) < resendBackoff ! nat (resends tk)
                \<or> int (length resendBackoff) < resends tk))"

text \<open>Lines 339 to 344: the DUP flag of a PUBLISH, the counter and the time of sending.\<close>

definition set_dup :: "InFlightMessage \<Rightarrow> InFlightMessage" where
  "set_dup tk =
     (if Type (FixedHeader (Packet tk)) = Publish
      then tk\<lparr>Packet := (Packet tk)\<lparr>FixedHeader := (FixedHeader (Packet tk))\<lparr>Dup := True\<rparr>\<rparr>\<rparr>
      else tk)"

definition advance :: "64 word \<Rightarrow> InFlightMessage \<Rightarrow> InFlightMessage" where
  "advance nt tk = (set_dup tk)\<lparr>resends := resends (set_dup tk) + 1, Sent := nt\<rparr>"

text \<open>
  The \<^verbatim>\<open>range\<close> loop of \<^verbatim>\<open>ResendInflight\<close> over the keys \<open>ks\<close> still to be produced.
  \<^verbatim>\<open>GetAll\<close> hands out the table itself, so the loop reads the live table: an entry
  deleted before it is reached is not produced. \<open>tw\<close> gives the reading of the clock at
  the write of the packet with a given id.
\<close>

fun ResendInflight_range ::
  "encode_fn \<Rightarrow> write_fn \<Rightarrow> (16 word \<Rightarrow> int) \<Rightarrow> 64 word \<Rightarrow> bool \<Rightarrow> 16 word list \<Rightarrow> Client
     \<Rightarrow> panic + (Client \<times> error option)" where
  "ResendInflight_range enc wfn tw nt force [] cl = Inr (cl, None)"
| "ResendInflight_range enc wfn tw nt force (k # ks) cl =
     (case map_of (InFlight cl) k of
        None \<Rightarrow> ResendInflight_range enc wfn tw nt force ks cl
      | Some tk \<Rightarrow>
          if resends tk \<ge> maxResends
          then ResendInflight_range enc wfn tw nt force ks
                 (cl\<lparr>InFlight := InFlight_Delete (InFlight cl) (PacketID (Packet tk))\<rparr>)
          else
            (case backoff_wait force nt tk of
               Inl pn \<Rightarrow> Inl pn
             | Inr True \<Rightarrow> ResendInflight_range enc wfn tw nt force ks cl
             | Inr False \<Rightarrow>
                 (case WritePacket enc wfn (tw (PacketID (Packet (advance nt tk))))
                         (cl\<lparr>InFlight := InFlight_Set (InFlight cl)
                                (PacketID (Packet (advance nt tk))) (advance nt tk)\<rparr>)
                         (Packet (advance nt tk)) of
                    (cl', n, Some e) \<Rightarrow> Inr (cl', Some e)
                  | (cl', n, None) \<Rightarrow> ResendInflight_range enc wfn tw nt force ks cl')))"

definition ResendInflight ::
  "encode_fn \<Rightarrow> write_fn \<Rightarrow> (16 word \<Rightarrow> int) \<Rightarrow> 64 word \<Rightarrow> bool \<Rightarrow> Client
     \<Rightarrow> panic + (Client \<times> error option)" where
  "ResendInflight enc wfn tw nt force cl =
     (if InFlight_Len (InFlight cl) = 0 then Inr (cl, None)
      else ResendInflight_range enc wfn tw nt force (map fst (InFlight cl)) cl)"

subsection \<open>Notions for the statements about the resend pass\<close>

text \<open>
  \<open>due\<close>: the backoff of a record has passed, or the pass is forced. \<open>resend_outcome\<close>:
  what section 4.11 of the specification says a visit does to one record (dropped at
  \<open>maxResends\<close>, advanced when due, else kept). \<open>table_ok\<close>: the table is keyed by the
  packet ids of its records, each key once, and no resend count is negative (the
  field is unexported, starts at 0 and is only ever incremented). \<open>keyed\<close> says the same
  of the table read as a map.
\<close>

definition due :: "bool \<Rightarrow> 64 word \<Rightarrow> InFlightMessage \<Rightarrow> bool" where
  "due force nt tk = (force \<or> \<not> sint (nt - Sent tk) < resendBackoff ! nat (resends tk))"

definition resend_outcome :: "bool \<Rightarrow> 64 word \<Rightarrow> InFlightMessage \<Rightarrow> InFlightMessage option" where
  "resend_outcome force nt tk =
     (if maxResends \<le> resends tk then None
      else if due force nt tk then Some (advance nt tk) else Some tk)"

definition table_ok :: "InFlight \<Rightarrow> bool" where
  "table_ok tbl = (distinct (map fst tbl) \<and>
     list_all (\<lambda>(k, tk). PacketID (Packet tk) = k \<and> 0 \<le> resends tk) tbl)"

definition keyed :: "(16 word \<Rightarrow> InFlightMessage option) \<Rightarrow> bool" where
  "keyed m = (\<forall>k tk. m k = Some tk \<longrightarrow> PacketID (Packet tk) = k \<and> 0 \<le> resends tk)"

text \<open>
  The writes a pass has to make. \<open>due_packets\<close>: the advanced packets of the records
  of a table that are below \<open>maxResends\<close> and due, in the order of the table.
  \<open>WritePackets\<close>: \<^verbatim>\<open>WritePacket\<close> on one packet after the other, up to the first
  error; \<open>tw\<close> gives the reading of the clock for each packet id. \<open>no_table\<close>: a
  client without regard to its in-flight table, which \<^verbatim>\<open>WritePacket\<close> neither reads
  nor writes.
\<close>

definition due_packets :: "bool \<Rightarrow> 64 word \<Rightarrow> InFlight \<Rightarrow> Packet list" where
  "due_packets force nt tbl =
     map (\<lambda>(k, tk). Packet (advance nt tk))
       (filter (\<lambda>(k, tk). resends tk < maxResends \<and> due force nt tk) tbl)"

fun WritePackets ::
  "encode_fn \<Rightarrow> write_fn \<Rightarrow> (16 word \<Rightarrow> int) \<Rightarrow> Packet list \<Rightarrow> Client \<Rightarrow> Client \<times> error option" where
  "WritePackets enc wfn tw [] cl = (cl, None)"
| "WritePackets enc wfn tw (pk # pks) cl =
     (case WritePacket enc wfn (tw (PacketID pk)) cl pk of
        (cl', n, Some e) \<Rightarrow> (cl', Some e)
      | (cl', n, None) \<Rightarrow> WritePackets enc wfn tw pks cl')"

definition no_table :: "Client \<Rightarrow> Client" where
  "no_table cl = cl\<lparr>InFlight := []\<rparr>"

text \<open>
  \<open>pass_rel\<close> relates a client before and after a pass over the entries \<open>al\<close> that
  ended with \<open>err\<close>: the writes made and the error are those of writing the due packets
  in order up to the first failure, and the table is as the visits leave it.
\<close>

definition pass_rel ::
  "encode_fn \<Rightarrow> write_fn \<Rightarrow> (16 word \<Rightarrow> int) \<Rightarrow> 64 word \<Rightarrow> bool \<Rightarrow> InFlight
     \<Rightarrow> Client \<Rightarrow> Client \<Rightarrow> error option \<Rightarrow> bool" where
  "pass_rel enc wfn tw nt force al cl cl' err =
     (keyed (map_of (InFlight cl'))
      \<and> (\<forall>j. j \<notin> fst ` set al \<longrightarrow> map_of (InFlight cl') j = map_of (InFlight cl) j)
      \<and> WritePackets enc wfn tw (due_packets force nt al) (no_table cl) = (no_table cl', err)
      \<and> (err = None \<longrightarrow>
           (\<forall>j tj. (j, tj) \<in> set al \<longrightarrow> map_of (InFlight cl') j = resend_outcome force nt tj))
      \<and> (\<forall>e. err = Some e \<longrightarrow>
           (\<exists>al1 k tk al2 cb n. al = al1 @ (k, tk) # al2
              \<and> resends tk < maxResends \<and> due force nt tk
              \<and> snd (WritePackets enc wfn tw (due_packets force nt al1) (no_table cl)) = None
              \<and> no_table cb = fst (WritePackets enc wfn tw (due_packets force nt al1) (no_table cl))
              \<and> map_of (InFlight cb) k = Some (advance nt tk)
              \<and> WritePacket enc wfn (tw k) cb (Packet (advance nt tk)) = (cl', n, Some e)
              \<and> (\<forall>j tj. (j, tj) \<in> set al1 \<longrightarrow>
                    map_of (InFlight cl') j = resend_outcome force nt tj)
              \<and> map_of (InFlight cl') k = Some (advance nt tk)
              \<and> (\<forall>j tj. (j, tj) \<in> set al2 \<longrightarrow> map_of (InFlight cl') j = Some tj))))"

subsection \<open>Stopping a client\<close>

text \<open>
  \<^verbatim>\<open>Stop\<close> runs its body under \<^verbatim>\<open>endOnce.Do\<close> and is called from several goroutines
  (the two drainers and the broker), so it is modelled as a transition system in which
  tasks, numbered by \<open>nat\<close>, take turns. \<^verbatim>\<open>sync.Once\<close> is \<open>Fresh\<close> until the first call of
  \<^verbatim>\<open>Do\<close>, which runs the function, \<open>Running\<close> while it runs, and \<open>Finished\<close> afterwards;
  a call of \<^verbatim>\<open>Do\<close> made while it is \<open>Running\<close> waits until it is \<open>Finished\<close>, a later one
  returns at once. \<^verbatim>\<open>WaitGroup.Wait\<close> can only be passed while the counter is 0.

  The events are the effects of the body (lines 230 to 238), in the order of the source.
\<close>

datatype event = ReaderStop | WriterStop | WaitEndedW | WaitEndedR | StoreDone

text \<open>
  Where a task is: outside \<^verbatim>\<open>Stop\<close>, before one of the five statements of the body,
  before the return of the body (\<open>AtOnceDone\<close>, where \<^verbatim>\<open>Do\<close> marks the gate as done),
  or waiting in \<^verbatim>\<open>Do\<close> for the running body (\<open>AtOnceWait\<close>).
\<close>

datatype pc = Outside | AtReaderStop | AtWriterStop | AtWaitW | AtWaitR | AtStoreDone
  | AtOnceDone | AtOnceWait

text \<open>
  The state of the system: the client's state, the place of every task, and three
  observers: the number of calls of \<^verbatim>\<open>Stop\<close> begun, the number of times the body was
  entered, the task that entered it. \<open>trace\<close> lists the effects of the body so far.
\<close>

record world =
  wstate :: clientState
  pcs :: "nat \<Rightarrow> pc"
  calls :: nat
  bodies :: nat
  runner :: nat
  trace :: "event list"

text \<open>
  One turn: a task calls \<^verbatim>\<open>Stop\<close>, a task inside \<^verbatim>\<open>Stop\<close> takes its next step, or a
  drainer registers (\<^verbatim>\<open>Add(1)\<close> in \<^verbatim>\<open>Start\<close>) or signals its end (\<^verbatim>\<open>Done()\<close>). A turn that
  cannot be taken (a blocked wait, \<^verbatim>\<open>Done\<close> on a counter that is 0) gives \<open>None\<close>.
\<close>

datatype action = CallStop nat | Advance nat | WriterStarts | ReaderStarts | WriterEnds | ReaderEnds

definition goto :: "nat \<Rightarrow> pc \<Rightarrow> world \<Rightarrow> world" where
  "goto t p s = s\<lparr>pcs := (pcs s)(t := p)\<rparr>"

definition emit :: "event \<Rightarrow> world \<Rightarrow> world" where
  "emit e s = s\<lparr>trace := trace s @ [e]\<rparr>"

fun stop_step :: "action \<Rightarrow> world \<Rightarrow> world option" where
  "stop_step (CallStop t) s =
     (if pcs s t \<noteq> Outside then None
      else
        (case endOnce (wstate s) of
           Fresh \<Rightarrow>
             Some (goto t AtReaderStop
                     (s\<lparr>wstate := (wstate s)\<lparr>endOnce := Running\<rparr>,
                        calls := Suc (calls s), bodies := Suc (bodies s), runner := t\<rparr>))
         | Running \<Rightarrow> Some (goto t AtOnceWait (s\<lparr>calls := Suc (calls s)\<rparr>))
         | Finished \<Rightarrow> Some (s\<lparr>calls := Suc (calls s)\<rparr>)))"
| "stop_step (Advance t) s =
     (case pcs s t of
        Outside \<Rightarrow> None
      | AtReaderStop \<Rightarrow> Some (goto t AtWriterStop (emit ReaderStop s))
      | AtWriterStop \<Rightarrow> Some (goto t AtWaitW (emit WriterStop s))
      | AtWaitW \<Rightarrow>
          if endedW (wstate s) = 0 then Some (goto t AtWaitR (emit WaitEndedW s)) else None
      | AtWaitR \<Rightarrow>
          if endedR (wstate s) = 0 then Some (goto t AtStoreDone (emit WaitEndedR s)) else None
      | AtStoreDone \<Rightarrow>
          Some (goto t AtOnceDone (emit StoreDone (s\<lparr>wstate := (wstate s)\<lparr>done_flag := 1\<rparr>\<rparr>)))
      | AtOnceDone \<Rightarrow> Some (goto t Outside (s\<lparr>wstate := (wstate s)\<lparr>endOnce := Finished\<rparr>\<rparr>))
      | AtOnceWait \<Rightarrow>
          if endOnce (wstate s) = Finished then Some (goto t Outside s) else None)"
| "stop_step WriterStarts s = Some (s\<lparr>wstate := (wstate s)\<lparr>endedW := endedW (wstate s) + 1\<rparr>\<rparr>)"
| "stop_step ReaderStarts s = Some (s\<lparr>wstate := (wstate s)\<lparr>endedR := endedR (wstate s) + 1\<rparr>\<rparr>)"
| "stop_step WriterEnds s =
     (if 0 < endedW (wstate s)
      then Some (s\<lparr>wstate := (wstate s)\<lparr>endedW := endedW (wstate s) - 1\<rparr>\<rparr>) else None)"
| "stop_step ReaderEnds s =
     (if 0 < endedR (wstate s)
      then Some (s\<lparr>wstate := (wstate s)\<lparr>endedR := endedR (wstate s) - 1\<rparr>\<rparr>) else None)"

text \<open>A schedule is a list of turns; it is a run when every turn can be taken.\<close>

fun stop_run :: "action list \<Rightarrow> world \<Rightarrow> world option" where
  "stop_run [] s = Some s"
| "stop_run (a # as) s = (case stop_step a s of None \<Rightarrow> None | Some s' \<Rightarrow> stop_run as s')"

text \<open>The tasks that call \<^verbatim>\<open>Stop\<close> in a schedule.\<close>

fun callers :: "action list \<Rightarrow> nat list" where
  "callers [] = []"
| "callers (CallStop t # as) = t # callers as"
| "callers (a # as) = callers as"

definition world_of :: "Client \<Rightarrow> world" where
  "world_of cl = \<lparr>wstate = state cl, pcs = (\<lambda>t. Outside), calls = 0, bodies = 0, runner = 0, trace = []\<rparr>"

text \<open>The effects of one execution of the body, and the invariant of the runs.\<close>

definition Stop_body :: "event list" where
  "Stop_body = [ReaderStop, WriterStop, WaitEndedW, WaitEndedR, StoreDone]"

fun pos :: "pc \<Rightarrow> nat" where
  "pos AtReaderStop = 0"
| "pos AtWriterStop = 1"
| "pos AtWaitW = 2"
| "pos AtWaitR = 3"
| "pos AtStoreDone = 4"
| "pos AtOnceDone = 5"
| "pos Outside = 0"
| "pos AtOnceWait = 0"

definition inbody :: "pc \<Rightarrow> bool" where
  "inbody p = (p \<noteq> Outside \<and> p \<noteq> AtOnceWait)"

definition stop_inv :: "world \<Rightarrow> bool" where
  "stop_inv s =
     (case endOnce (wstate s) of
        Fresh \<Rightarrow> calls s = 0 \<and> bodies s = 0 \<and> trace s = [] \<and> done_flag (wstate s) = 0
                 \<and> (\<forall>t. pcs s t = Outside)
      | Running \<Rightarrow> 0 < calls s \<and> bodies s = 1
                 \<and> inbody (pcs s (runner s))
                 \<and> (\<forall>u. u \<noteq> runner s \<longrightarrow> \<not> inbody (pcs s u))
                 \<and> trace s = take (pos (pcs s (runner s))) Stop_body
                 \<and> done_flag (wstate s) = (if pcs s (runner s) = AtOnceDone then 1 else 0)
      | Finished \<Rightarrow> 0 < calls s \<and> bodies s = 1 \<and> trace s = Stop_body
                 \<and> done_flag (wstate s) = 1 \<and> (\<forall>t. \<not> inbody (pcs s t)))"

subsection \<open>Example values\<close>

definition ex_conn :: Conn where
  "ex_conn = \<lparr>deadline = None\<rparr>"

definition ex_reader :: "byte list \<Rightarrow> Reader" where
  "ex_reader bs = \<lparr>rID = [], rbuf = bs\<rparr>"

definition ex_writer :: Writer where
  "ex_writer = \<lparr>wID = [], Mu_acquired = 0, wbuf = []\<rparr>"

definition ex_client :: Client where
  "ex_client = NewClient 0 (Some ex_conn) (ex_reader []) ex_writer"

definition ex_stopped :: Client where
  "ex_stopped = ex_client\<lparr>state := (state ex_client)\<lparr>done_flag := 1\<rparr>\<rparr>"

definition ex_encode :: encode_fn where
  "ex_encode t pk = Inr [t]"

definition ex_write :: write_fn where
  "ex_write wr bs = (wr\<lparr>wbuf := wbuf wr @ bs\<rparr>, int (length bs), None)"

definition ex_fh :: FixedHeader where
  "ex_fh = \<lparr>Type = 0, Dup = False, Qos = 0, Retain = False, Remaining = 0\<rparr>"

definition ex_registry :: Clients where
  "ex_registry =
     Add (Add (Add New (ex_client\<lparr>ID := ''a'', Listener := ''tcp1''\<rparr>))
                       (ex_stopped\<lparr>ID := ''b'', Listener := ''tcp1''\<rparr>))
                       (ex_client\<lparr>ID := ''c'', Listener := ''ws1''\<rparr>)"

text \<open>
  A PUBLISH header byte followed by a remaining-length field of four bytes: three
  continuation bytes and a terminator.
\<close>

definition ex_four_byte_field :: "byte list" where
  "ex_four_byte_field = [0x30, 0x80, 0x80, 0x80, 0x01]"

definition ex_publish :: "16 word \<Rightarrow> Packet" where
  "ex_publish pid =
     zero_Packet\<lparr>FixedHeader := \<lparr>Type = Publish, Dup = False, Qos = 1, Retain = False, Remaining = 0\<rparr>,
                 PacketID := pid\<rparr>"

definition ex_msg :: "16 word \<Rightarrow> 64 word \<Rightarrow> int \<Rightarrow> InFlightMessage" where
  "ex_msg pid s n = \<lparr>Packet = ex_publish pid, Sent = s, resends = n\<rparr>"

definition ex_clock :: "16 word \<Rightarrow> int" where
  "ex_clock pid = 0"

definition ex_write_fail :: write_fn where
  "ex_write_fail wr bs = (wr, 0, Some (ErrExternal 1))"

definition ex_resender :: Client where
  "ex_resender = ex_client\<lparr>InFlight := [(1, ex_msg 1 0 0), (2, ex_msg 2 100 1), (3, ex_msg 3 0 6)]\<rparr>"

definition ex_two_due :: Client where
  "ex_two_due = ex_client\<lparr>InFlight := [(1, ex_msg 1 0 0), (2, ex_msg 2 0 0)]\<rparr>"

definition ex_closed_expired :: Client where
  "ex_closed_expired = ex_stopped\<lparr>InFlight := [(1, ex_msg 1 0 0), (2, ex_msg 2 0 6)]\<rparr>"

definition ex_schedule :: "action list" where
  "ex_schedule =
     [WriterStarts, ReaderStarts, CallStop 0, CallStop 1, Advance 0, Advance 0, WriterEnds,
      CallStop 2, Advance 0, ReaderEnds, Advance 0, Advance 0, Advance 0, Advance 1, Advance 2,
      CallStop 3]"

section \<open>Properties\<close>

subsection \<open>Packet ids\<close>

lemma packetID_eq_65535: "(i :: 32 word) = 65535 \<longleftrightarrow> unat i = 65535"
  by (simp add: word_unat_eq_iff)

lemma packetID_eq_0: "(i :: 32 word) = 0 \<longleftrightarrow> unat i = 0"
  by (simp add: word_unat_eq_iff)

lemma packetID_succ: "unat (i :: 32 word) < 65535 \<Longrightarrow> unat (i + 1) = unat i + 1"
  by (simp add: unat_word_ariths)

lemma NextPacketID_unat:
  assumes "unat (packetID cl) \<le> 65535"
  shows "unat (snd (NextPacketID cl)) = unat (packetID cl) mod 65535 + 1"
    and "packetID (fst (NextPacketID cl)) = snd (NextPacketID cl)"
  using assms
  by (auto simp add: NextPacketID_def Let_def packetID_eq_65535 packetID_eq_0 packetID_succ)

lemma NextPacketID_calls_unat:
  "unat (packetID cl) \<le> 65535 \<Longrightarrow>
   map unat (NextPacketID_calls n cl) =
     map (\<lambda>j. (unat (packetID cl) + j) mod 65535 + 1) [0..<n]"
proof (induction n arbitrary: cl)
  case 0
  then show ?case by simp
next
  case (Suc n)
  obtain cl' v where nx: "NextPacketID cl = (cl', v)" by (cases "NextPacketID cl")
  from NextPacketID_unat [OF Suc.prems] nx
  have v: "unat v = unat (packetID cl) mod 65535 + 1" and p': "packetID cl' = v" by simp_all
  have le: "unat (packetID cl') \<le> 65535" using v p' by simp
  have shift: "(unat (packetID cl') + j) mod 65535 = (unat (packetID cl) + Suc j) mod 65535" for j
  proof -
    have "(unat (packetID cl) mod 65535 + (1 + j)) mod 65535 =
          (unat (packetID cl) + (1 + j)) mod 65535"
      by (rule mod_add_left_eq)
    then show ?thesis using v p' by (simp add: add.assoc)
  qed
  have "map unat (NextPacketID_calls n cl') =
        map (\<lambda>j. (unat (packetID cl) + Suc j) mod 65535 + 1) [0..<n]"
    using Suc.IH [OF le] by (simp add: shift)
  also have "\<dots> = map (\<lambda>j. (unat (packetID cl) + j) mod 65535 + 1) (map Suc [0..<n])"
    by (simp add: comp_def)
  finally have tl: "map unat (NextPacketID_calls n cl') =
        map (\<lambda>j. (unat (packetID cl) + j) mod 65535 + 1) [Suc 0..<Suc n]"
    by (simp only: map_Suc_upt)
  have "[0..<Suc n] = 0 # [Suc 0..<Suc n]" by (simp add: upt_conv_Cons)
  then show ?case using nx v tl by (simp del: upt_Suc)
qed

text \<open>
  C4. From the counter 0, the \<open>n\<close> ids that \<open>n\<close> calls of \<^verbatim>\<open>NextPacketID\<close> return one
  after the other are \<open>1, 2, \<dots>, 65535, 1, 2, \<dots>\<close>: call number \<open>j\<close> (counted from 0)
  returns \<open>j mod 65535 + 1\<close>. The value 0 is never returned and every returned value
  lies between 1 and 65535, for every number of calls.
\<close>

theorem NextPacketID_sequence:
  assumes "packetID cl = 0"
  shows "NextPacketID_calls n cl = map (\<lambda>j. word_of_nat (j mod 65535 + 1)) [0..<n]
     \<and> 0 \<notin> set (NextPacketID_calls n cl)
     \<and> (\<forall>v \<in> set (NextPacketID_calls n cl). 1 \<le> v \<and> v \<le> 65535)"
proof -
  have m: "map unat (NextPacketID_calls n cl) = map (\<lambda>j. j mod 65535 + 1) [0..<n]"
    using NextPacketID_calls_unat [of cl n] assms by simp
  have "map word_of_nat (map unat (NextPacketID_calls n cl)) =
        (NextPacketID_calls n cl :: 32 word list)"
    by (simp add: comp_def)
  then have eq: "NextPacketID_calls n cl = map (\<lambda>j. word_of_nat (j mod 65535 + 1)) [0..<n]"
    by (simp add: m comp_def)
  have rng: "1 \<le> unat v \<and> unat v \<le> 65535" if "v \<in> set (NextPacketID_calls n cl)" for v
  proof -
    from that have "unat v \<in> set (map unat (NextPacketID_calls n cl))" by simp
    then obtain j where "unat v = j mod 65535 + 1" unfolding m by auto
    moreover have "j mod 65535 < 65535" by simp
    ultimately show ?thesis by linarith
  qed
  have b: "1 \<le> v \<and> v \<le> 65535" if "v \<in> set (NextPacketID_calls n cl)" for v
    using rng [OF that] by (simp add: word_le_nat_alt)
  have z: "0 \<notin> set (NextPacketID_calls n cl)"
    using rng [of 0] by auto
  show ?thesis using eq b z by blast
qed

theorem NextPacketID_sequence_witness:
  "packetID ex_client = 0 \<and> NextPacketID_calls 3 ex_client = [1, 2, 3]"
  using NextPacketID_sequence [of ex_client 3]
  by (simp add: ex_client_def NewClient_def refreshDeadline_def upt_rec)

subsection \<open>The keepalive deadline\<close>

lemma refreshDeadline_small:
  assumes "0 < ka" "unat ka \<le> 43690" "conn cl = Some c"
  shows "conn (refreshDeadline now ka cl) =
         Some (c\<lparr>deadline := Some (now + (int (unat ka) + int (unat ka) div 2) * Second)\<rparr>)"
proof -
  have "unat (ka div 2) = unat ka div 2" by (simp add: unat_div)
  then have "unat (ka + ka div 2) = unat ka + unat ka div 2"
    using assms(2) by (simp add: unat_word_ariths)
  then show ?thesis using assms by (simp add: refreshDeadline_def zdiv_int)
qed

lemma refreshDeadline_zero:
  "conn cl = Some c \<Longrightarrow> conn (refreshDeadline now 0 cl) = Some (c\<lparr>deadline := None\<rparr>)"
  by (simp add: refreshDeadline_def)

text \<open>Scenario 1 of the specification: a CONNECT with keepalive 60 gives a deadline of 90 seconds.\<close>

lemma Identify_keepalive_60:
  "conn cl = Some c \<Longrightarrow> Keepalive pk = 60 \<Longrightarrow>
   conn (Identify xid now lid pk cl) = Some (c\<lparr>deadline := Some (now + 90 * Second)\<rparr>)
   \<and> keepalive (Identify xid now lid pk cl) = 60"
  by (simp add: Identify_def Let_def refreshDeadline_def)

text \<open>
  C3. The claim fails on the code for a keepalive above 43690: the sum
  \<^verbatim>\<open>keepalive+(keepalive/2)\<close> is taken in \<^verbatim>\<open>uint16\<close> before it is widened to a
  duration, and wraps. With the keepalive 43691 the sum is \<open>65536 mod 2 ^ 16 = 0\<close> and the
  deadline installed is \<open>now\<close> itself; with 65535 it is \<open>now\<close> plus 32766 seconds, where
  one and a half times the keepalive is 98302 seconds.
\<close>

theorem refreshDeadline_wraps:
  "conn (refreshDeadline now 43691 (cl\<lparr>conn := Some c\<rparr>)) = Some (c\<lparr>deadline := Some now\<rparr>)
   \<and> conn (refreshDeadline now 65535 (cl\<lparr>conn := Some c\<rparr>)) =
       Some (c\<lparr>deadline := Some (now + 32766 * Second)\<rparr>)
   \<and> (43691 + 43691 div 2 :: nat) = 65536"
  by (simp add: refreshDeadline_def)

text \<open>
  C10. A client fresh from \<^verbatim>\<open>NewClient\<close> has the keepalive 10, clean-session false,
  no subscriptions and no in-flight messages, and its connection (when there is one)
  carries the deadline \<open>now\<close> plus 15 seconds; so does every later refresh with the
  client's keepalive, as the read loop does before a CONNECT has been read.
\<close>

theorem NewClient_fresh:
  "keepalive (NewClient now c rd wr) = 10
   \<and> \<not> cleanSession (NewClient now c rd wr)
   \<and> Subscriptions (NewClient now c rd wr) = []
   \<and> InFlight (NewClient now c rd wr) = []
   \<and> conn (NewClient now c rd wr) =
       map_option (\<lambda>k. k\<lparr>deadline := Some (now + 15 * Second)\<rparr>) c
   \<and> conn (refreshDeadline now' (keepalive (NewClient now c rd wr)) (NewClient now c rd wr)) =
       map_option (\<lambda>k. k\<lparr>deadline := Some (now' + 15 * Second)\<rparr>) c"
  by (cases c) (simp_all add: NewClient_def refreshDeadline_def defaultKeepalive_def)

subsection \<open>Writing after shutdown\<close>

text \<open>
  C5. With the done flag set, \<^verbatim>\<open>WritePacket\<close> returns 0 and \<^verbatim>\<open>ErrConnectionClosed\<close> and
  leaves the client as it was, whatever the encoder and the writer's \<^verbatim>\<open>Write\<close> are: the
  count of acquisitions of the writer's lock and the bytes in the writer are unchanged.
\<close>

theorem WritePacket_closed:
  assumes "done_flag (state cl) = 1"
  shows "WritePacket enc wfn now cl pk = (cl, 0, Some ErrConnectionClosed)
     \<and> Mu_acquired (wtr (fst (WritePacket enc wfn now cl pk))) = Mu_acquired (wtr cl)
     \<and> wbuf (wtr (fst (WritePacket enc wfn now cl pk))) = wbuf (wtr cl)"
  using assms by (simp add: WritePacket_def)

theorem WritePacket_closed_witness:
  "done_flag (state ex_stopped) = 1
   \<and> WritePacket ex_encode ex_write 5 ex_stopped zero_Packet =
       (ex_stopped, 0, Some ErrConnectionClosed)
   \<and> Mu_acquired (wtr (fst (WritePacket ex_encode ex_write 5 ex_stopped zero_Packet))) = 0"
  using WritePacket_closed [of ex_stopped ex_encode ex_write 5 zero_Packet]
  by (simp add: ex_stopped_def ex_client_def NewClient_def refreshDeadline_def ex_writer_def)

text \<open>An open client does take the lock.\<close>

lemma WritePacket_open_locks:
  "done_flag (state cl) \<noteq> 1 \<Longrightarrow>
   Mu_acquired (wtr (fst (WritePacket enc ex_write now cl pk))) = Suc (Mu_acquired (wtr cl))"
  by (auto simp add: WritePacket_def Let_def Mu_Lock_def ex_write_def refreshDeadline_def
      split: sum.splits option.splits prod.splits)

subsection \<open>The registry\<close>

lemma GetByListener_filter:
  "GetByListener cls lid =
     map snd (filter (\<lambda>(k, v). Listener v = lid \<and> done_flag (state v) = 0) cls)"
  by (induction cls lid rule: GetByListener.induct) auto

lemma distinct_Add: "distinct (map fst cls) \<Longrightarrow> distinct (map fst (Add cls val))"
  by (simp add: Add_def distinct_update)

lemma distinct_Delete: "distinct (map fst cls) \<Longrightarrow> distinct (map fst (Delete cls k))"
  by (simp add: Delete_def distinct_delete)

text \<open>
  C6. In a registry (keys distinct, as \<^verbatim>\<open>New\<close>, \<^verbatim>\<open>Add\<close> and \<^verbatim>\<open>Delete\<close> keep them),
  \<^verbatim>\<open>GetByListener\<close> returns exactly the registered sessions whose listener is the given id
  and whose done flag is 0: every session of the result has both, and a registered
  session whose done flag is 1 is not in the result for its listener.
\<close>

theorem GetByListener_exact:
  assumes "distinct (map fst cls)"
  shows "set (GetByListener cls lid) =
           {v. \<exists>k. Get cls k = Some v \<and> Listener v = lid \<and> done_flag (state v) = 0}
     \<and> (\<forall>v \<in> set (GetByListener cls lid). Listener v = lid \<and> done_flag (state v) = 0)
     \<and> (\<forall>k v. Get cls k = Some v \<and> done_flag (state v) = 1 \<longrightarrow>
           v \<notin> set (GetByListener cls (Listener v)))"
proof -
  have "(k, v) \<in> set cls \<longleftrightarrow> Get cls k = Some v" for k v
    using assms by (simp add: Get_def)
  then show ?thesis
    by (auto simp add: GetByListener_filter image_iff)
qed

theorem GetByListener_exact_witness:
  "distinct (map fst ex_registry)
   \<and> GetByListener ex_registry ''tcp1'' = [ex_client\<lparr>ID := ''a'', Listener := ''tcp1''\<rparr>]
   \<and> set (GetByListener ex_registry ''tcp1'') =
        {v. \<exists>k. Get ex_registry k = Some v \<and> Listener v = ''tcp1'' \<and> done_flag (state v) = 0}
   \<and> Get ex_registry ''b'' = Some (ex_stopped\<lparr>ID := ''b'', Listener := ''tcp1''\<rparr>)
   \<and> ex_stopped\<lparr>ID := ''b'', Listener := ''tcp1''\<rparr> \<notin> set (GetByListener ex_registry ''tcp1'')"
proof -
  have d: "distinct (map fst ex_registry)"
    by (simp add: ex_registry_def Add_def New_def)
  have g: "GetByListener ex_registry ''tcp1'' = [ex_client\<lparr>ID := ''a'', Listener := ''tcp1''\<rparr>]"
    by (simp add: ex_registry_def Add_def New_def ex_stopped_def ex_client_def NewClient_def
        refreshDeadline_def)
  have b: "Get ex_registry ''b'' = Some (ex_stopped\<lparr>ID := ''b'', Listener := ''tcp1''\<rparr>)"
    by (simp add: ex_registry_def Add_def New_def Get_def)
  have s: "done_flag (state (ex_stopped\<lparr>ID := ''b'', Listener := ''tcp1''\<rparr>)) = 1"
    by (simp add: ex_stopped_def)
  from GetByListener_exact [OF d, of "''tcp1''"]
  have e: "set (GetByListener ex_registry ''tcp1'') =
        {v. \<exists>k. Get ex_registry k = Some v \<and> Listener v = ''tcp1'' \<and> done_flag (state v) = 0}"
    and n: "\<forall>k v. Get ex_registry k = Some v \<and> done_flag (state v) = 1 \<longrightarrow>
           v \<notin> set (GetByListener ex_registry (Listener v))"
    by blast+
  from n b s have "ex_stopped\<lparr>ID := ''b'', Listener := ''tcp1''\<rparr>
      \<notin> set (GetByListener ex_registry (Listener (ex_stopped\<lparr>ID := ''b'', Listener := ''tcp1''\<rparr>)))"
    by blast
  then have "ex_stopped\<lparr>ID := ''b'', Listener := ''tcp1''\<rparr> \<notin> set (GetByListener ex_registry ''tcp1'')"
    by simp
  with d g e b show ?thesis by blast
qed

subsection \<open>The fixed header\<close>

text \<open>
  C1. The claim fails on the code for a remaining-length field of four bytes. The loop
  returns the oversized-length error as soon as the third length byte is a continuation
  byte (\<open>i\<close> reaches 4 after the bytes at 1, 2 and 3), before the fourth length byte is
  read: the header \<^verbatim>\<open>30 80 80 80 01\<close>, whose field is well formed and has the value
  2097152, is rejected.
\<close>

theorem ReadFixedHeader_rejects_four_byte_field:
  "ReadFixedHeader Decode (ex_client\<lparr>rdr := ex_reader ex_four_byte_field\<rparr>) ex_fh =
     Inr (ex_client\<lparr>rdr := ex_reader ex_four_byte_field\<rparr>, ex_fh\<lparr>Type := 3\<rparr>,
          Some ErrOversizedLengthIndicator)
   \<and> varint_value (tl ex_four_byte_field) = 2097152"
  by (simp add: ReadFixedHeader_def Read_def ex_reader_def ex_four_byte_field_def Decode_def
      ex_fh_def)

text \<open>The same for every header with three continuation bytes, whatever follows them.\<close>

lemma ReadFixedHeader_three_continuations:
  assumes "rbuf (rdr cl) = t # b1 # b2 # b3 # rest" "b1 \<ge> 128" "b2 \<ge> 128" "b3 \<ge> 128"
    and "dec fh t = (fh1, None)"
  shows "ReadFixedHeader dec cl fh = Inr (cl, fh1, Some ErrOversizedLengthIndicator)"
  using assms by (simp add: ReadFixedHeader_def Read_def not_less [symmetric])

text \<open>
  Fields of one, two and three bytes are accepted, with the value of the field as the
  remaining length and the header bytes committed.
\<close>

lemma sint_small: "uint (w :: 64 word) < 2 ^ 63 \<Longrightarrow> sint w = uint w"
proof -
  assume a: "uint w < 2 ^ 63"
  have "- (2 ^ 63) \<le> uint w" by (rule order_trans [of _ 0]) simp_all
  then have "signed_take_bit 63 (uint w) = uint w"
    using a by (rule signed_take_bit_int_eq_self)
  then show ?thesis by (simp add: sint_uint)
qed

lemma uint_ucast_byte: "uint (ucast (b :: byte) :: 64 word) = uint b"
  by (simp add: uint_up_ucast is_up)

lemma uint_and_mask7: "uint (and (b::byte) (mask 7)) = take_bit 7 (uint b)"
  by (simp add: uint_and uint_mask_eq take_bit_eq_mask)

lemma uint_low7: "uint (and (b :: byte) 127) = take_bit 7 (uint b)"
proof -
  have m: "(127 :: byte) = mask 7" by (simp add: mask_eq_exp_minus_1)
  show ?thesis unfolding m by (rule uint_and_mask7)
qed

lemma uint_byte_bound: "uint (b :: byte) < 256"
  using uint_bounded [of b] by simp

lemma uint_shift7: "uint (push_bit 7 (ucast (b :: byte)) :: 64 word) = push_bit 7 (uint b)"
proof -
  have "uint (push_bit 7 (ucast b) :: 64 word) = (uint b * 128) mod 2 ^ 64"
    by (simp add: push_bit_eq_mult uint_word_ariths uint_ucast_byte)
  moreover have "0 \<le> uint b * 128" "uint b * 128 < 2 ^ 64"
    using uint_byte_bound [of b] by simp_all
  ultimately show ?thesis by (simp add: push_bit_eq_mult)
qed

lemma uint_shift14: "uint (push_bit 14 (ucast (b :: byte)) :: 64 word) = push_bit 14 (uint b)"
proof -
  have "uint (push_bit 14 (ucast b) :: 64 word) = (uint b * 16384) mod 2 ^ 64"
    by (simp add: push_bit_eq_mult uint_word_ariths uint_ucast_byte)
  moreover have "0 \<le> uint b * 16384" "uint b * 16384 < 2 ^ 64"
    using uint_byte_bound [of b] by simp_all
  ultimately show ?thesis by (simp add: push_bit_eq_mult)
qed

lemma or_concat7: "or (take_bit 7 (k :: int)) (push_bit 7 l) = take_bit 7 k + 128 * l"
  using concat_bit_eq [of 7 k l] by (simp add: concat_bit_def push_bit_eq_mult)


lemma or_concat14: "or (take_bit 14 (k :: int)) (push_bit 14 l) = take_bit 14 k + 16384 * l"
  using concat_bit_eq [of 14 k l] by (simp add: concat_bit_def push_bit_eq_mult)

lemma uint_terminator: "(b :: byte) < 128 \<Longrightarrow> take_bit 7 (uint b) = uint b"
  by (simp add: take_bit_int_eq_self word_less_def)

lemma int_varint_value_Cons:
  "int (varint_value (b # bs)) = take_bit 7 (uint b) + 128 * int (varint_value bs)"
  by (simp add: uint_low7 [symmetric])

lemma take_bit7_bounds: "0 \<le> take_bit 7 (k :: int)" "take_bit 7 (k :: int) < 128"
  using take_bit_int_less_exp [of 7 k] by simp_all

lemma Remaining_one_byte:
  assumes "b1 < 128"
  shows "sint (fst (Uvarint [b1])) = int (varint_value [b1])"
proof -
  have u: "uint (ucast b1 :: 64 word) = uint b1" by (rule uint_ucast_byte)
  have "uint (ucast b1 :: 64 word) < 2 ^ 63"
    unfolding u using uint_byte_bound [of b1] by simp
  then have "sint (ucast b1 :: 64 word) = uint b1" using u by (simp add: sint_small)
  then show ?thesis
    using assms by (simp add: Uvarint_def MaxVarintLen64_def uint_low7 uint_terminator)
qed

lemma Remaining_two_bytes:
  assumes "\<not> b1 < 128" "b2 < 128"
  shows "sint (fst (Uvarint [b1, b2])) = int (varint_value [b1, b2])"
proof -
  let ?w = "or (ucast (and b1 127)) (push_bit 7 (ucast b2)) :: 64 word"
  have u: "uint ?w = take_bit 7 (uint b1) + 128 * uint b2"
    by (simp only: uint_or uint_ucast_byte uint_low7 uint_shift7 or_concat7)
  have "uint ?w < 2 ^ 63"
    unfolding u using take_bit7_bounds [of "uint b1"] uint_byte_bound [of b2] by simp
  then have "sint ?w = take_bit 7 (uint b1) + 128 * uint b2" using u by (simp add: sint_small)
  moreover have "fst (Uvarint [b1, b2]) = ?w"
    using assms by (simp add: Uvarint_def MaxVarintLen64_def)
  ultimately show ?thesis
    using assms(2) by (simp add: uint_low7 uint_terminator)
qed

lemma Remaining_three_bytes:
  assumes "\<not> b1 < 128" "\<not> b2 < 128" "b3 < 128"
  shows "sint (fst (Uvarint [b1, b2, b3])) = int (varint_value [b1, b2, b3])"
proof -
  let ?x = "take_bit 7 (uint b1) + 128 * take_bit 7 (uint b2)"
  let ?w = "or (or (ucast (and b1 127)) (push_bit 7 (ucast (and b2 127))))
               (push_bit 14 (ucast b3)) :: 64 word"
  have x: "0 \<le> ?x" "?x < 2 ^ 14"
    using take_bit7_bounds [of "uint b1"] take_bit7_bounds [of "uint b2"] by simp_all
  then have tx: "take_bit 14 ?x = ?x" by (simp add: take_bit_int_eq_self)
  have "uint ?w = or ?x (push_bit 14 (uint b3))"
    by (simp only: uint_or uint_ucast_byte uint_low7 uint_shift7 uint_shift14 or_concat7)
  also have "\<dots> = ?x + 16384 * uint b3"
    using or_concat14 [of ?x "uint b3"] by (simp only: tx)
  finally have u: "uint ?w = ?x + 16384 * uint b3" .
  have "uint ?w < 2 ^ 63"
    unfolding u using x uint_byte_bound [of b3] by simp
  then have "sint ?w = ?x + 16384 * uint b3" using u by (simp add: sint_small)
  moreover have "fst (Uvarint [b1, b2, b3]) = ?w"
    using assms by (simp add: Uvarint_def MaxVarintLen64_def)
  ultimately show ?thesis
    using assms(3) by (simp add: uint_low7 uint_terminator)
qed

lemma ReadFixedHeader_one_byte_field:
  assumes "rbuf (rdr cl) = t # b1 # rest" "b1 < 128" "dec fh t = (fh1, None)"
  shows "ReadFixedHeader dec cl fh =
     Inr (cl\<lparr>rdr := CommitTail (rdr cl) 2\<rparr>, fh1\<lparr>Remaining := int (varint_value [b1])\<rparr>, None)"
  using assms Remaining_one_byte [OF assms(2)]
  by (simp add: ReadFixedHeader_def Read_def del: varint_value.simps)

lemma ReadFixedHeader_two_byte_field:
  assumes "rbuf (rdr cl) = t # b1 # b2 # rest" "\<not> b1 < 128" "b2 < 128" "dec fh t = (fh1, None)"
  shows "ReadFixedHeader dec cl fh =
     Inr (cl\<lparr>rdr := CommitTail (rdr cl) 3\<rparr>, fh1\<lparr>Remaining := int (varint_value [b1, b2])\<rparr>, None)"
  using assms Remaining_two_bytes [OF assms(2,3)]
  by (simp add: ReadFixedHeader_def Read_def del: varint_value.simps)

lemma ReadFixedHeader_three_byte_field:
  assumes "rbuf (rdr cl) = t # b1 # b2 # b3 # rest" "\<not> b1 < 128" "\<not> b2 < 128" "b3 < 128"
    and "dec fh t = (fh1, None)"
  shows "ReadFixedHeader dec cl fh =
     Inr (cl\<lparr>rdr := CommitTail (rdr cl) 4\<rparr>, fh1\<lparr>Remaining := int (varint_value [b1, b2, b3])\<rparr>, None)"
  using assms Remaining_three_bytes [OF assms(2,3,4)]
  by (simp add: ReadFixedHeader_def Read_def del: varint_value.simps)

subsection \<open>Reading a packet\<close>

text \<open>
  C2. The claim fails on the code for a header whose remaining length is 0:
  \<^verbatim>\<open>ReadPacket\<close> returns before its \<^verbatim>\<open>switch\<close>, with no error, whatever the packet type.
  Type 15 is none of the fourteen kinds.
\<close>

theorem ReadPacket_unknown_type_zero_remaining:
  "ReadPacket dec cl \<lparr>Type = 15, Dup = False, Qos = 0, Retain = False, Remaining = 0\<rparr> =
     (cl, zero_Packet\<lparr>FixedHeader :=
            \<lparr>Type = 15, Dup = False, Qos = 0, Retain = False, Remaining = 0\<rparr>\<rparr>, None)
   \<and> 15 \<notin> set known_kinds"
  by (simp add: ReadPacket_def known_kinds_def Connect_def Connack_def Publish_def Puback_def
      Pubrec_def Pubrel_def Pubcomp_def Subscribe_def Suback_def Unsubscribe_def Unsuback_def
      Pingreq_def Pingresp_def Disconnect_def)

text \<open>With bytes to read, an unknown type does give the error.\<close>

lemma decode_switch_unknown:
  "t \<notin> set known_kinds \<Longrightarrow> Type (FixedHeader pk) = t \<Longrightarrow>
   decode_switch dec pk px = (pk, Some (ErrNoValidPacket t))"
  by (simp add: decode_switch_def known_kinds_def)

lemma ReadPacket_unknown_type:
  assumes "Type fh \<notin> set known_kinds" "Remaining fh \<noteq> 0"
    and "Read (rdr cl) (Remaining fh) = Inr p"
  shows "snd (snd (ReadPacket dec cl fh)) = Some (ErrNoValidPacket (Type fh))"
  using assms by (simp add: ReadPacket_def Let_def decode_switch_unknown)

subsection \<open>The resend pass\<close>

lemma WritePacket_InFlight:
  "InFlight (fst (WritePacket enc wfn now cl pk)) = InFlight cl"
  by (auto simp add: WritePacket_def Let_def refreshDeadline_def
      split: sum.splits option.splits prod.splits)

lemma advance_PacketID: "PacketID (Packet (advance nt tk)) = PacketID (Packet tk)"
  by (simp add: advance_def set_dup_def)

lemma advance_resends: "resends (advance nt tk) = resends tk + 1"
  by (simp add: advance_def set_dup_def)

lemma backoff_wait_in_range:
  "0 \<le> resends tk \<Longrightarrow> resends tk < maxResends \<Longrightarrow>
   backoff_wait force nt tk = Inr (\<not> due force nt tk)"
  by (auto simp add: backoff_wait_def due_def maxResends_def resendBackoff_def)

lemma keyed_outcome:
  "keyed m \<Longrightarrow> keyed (m(k := Option.bind (m k) (resend_outcome force nt)))"
  by (auto simp add: keyed_def resend_outcome_def advance_PacketID advance_resends
      split: if_splits bind_splits)

lemma keyed_advance:
  "keyed m \<Longrightarrow> m k = Some tk \<Longrightarrow> keyed (m(k \<mapsto> advance nt tk))"
  by (auto simp add: keyed_def advance_PacketID advance_resends)

lemma table_ok_iff:
  "table_ok tbl \<longleftrightarrow> distinct (map fst tbl) \<and> keyed (map_of tbl)"
proof
  assume t: "table_ok tbl"
  have "PacketID (Packet tk) = k \<and> 0 \<le> resends tk" if "map_of tbl k = Some tk" for k tk
  proof -
    from that have "(k, tk) \<in> set tbl" by (rule map_of_SomeD)
    with t show ?thesis by (auto simp add: table_ok_def list_all_iff)
  qed
  with t show "distinct (map fst tbl) \<and> keyed (map_of tbl)"
    by (simp add: table_ok_def keyed_def)
next
  assume a: "distinct (map fst tbl) \<and> keyed (map_of tbl)"
  then have "PacketID (Packet tk) = k \<and> 0 \<le> resends tk" if "(k, tk) \<in> set tbl" for k tk
    using that by (auto simp add: keyed_def)
  with a show "table_ok tbl"
    by (auto simp add: table_ok_def list_all_iff)
qed

lemma ResendInflight_range_eq:
  "ResendInflight enc wfn tw nt force cl =
   ResendInflight_range enc wfn tw nt force (map fst (InFlight cl)) cl"
  by (simp add: ResendInflight_def InFlight_Len_def)

lemma advance_eq:
  "advance nt tk =
     tk\<lparr>Packet := (Packet tk)\<lparr>FixedHeader := (FixedHeader (Packet tk))
           \<lparr>Dup := (Type (FixedHeader (Packet tk)) = Publish \<or> Dup (FixedHeader (Packet tk)))\<rparr>\<rparr>,
        resends := resends tk + 1, Sent := nt\<rparr>"
  by (simp add: advance_def set_dup_def)

lemma no_table_idem [simp]: "no_table (no_table c) = no_table c"
  by (simp add: no_table_def)

lemma no_table_update [simp]: "no_table (c\<lparr>InFlight := t\<rparr>) = no_table c"
  by (simp add: no_table_def)

lemma WritePacket_no_table:
  "WritePacket enc wfn now (no_table c) pk =
     (case WritePacket enc wfn now c pk of (c', n, r) \<Rightarrow> (no_table c', n, r))"
  by (auto simp add: WritePacket_def Let_def refreshDeadline_def no_table_def
      split: sum.splits option.splits prod.splits)

lemma WritePackets_append:
  "WritePackets enc wfn tw (xs @ ys) c =
     (case WritePackets enc wfn tw xs c of
        (c', None) \<Rightarrow> WritePackets enc wfn tw ys c'
      | (c', Some e) \<Rightarrow> (c', Some e))"
  by (induction xs arbitrary: c) (auto split: prod.splits option.splits)

lemma due_packets_append:
  "due_packets force nt (a @ b) = due_packets force nt a @ due_packets force nt b"
  by (simp add: due_packets_def)

lemma due_packets_Cons:
  "due_packets force nt ((k, tk) # al) = due_packets force nt [(k, tk)] @ due_packets force nt al"
  by (simp add: due_packets_def)

lemma due_packets_single:
  "due_packets force nt [(k, tk)] =
     (if resends tk < maxResends \<and> due force nt tk then [Packet (advance nt tk)] else [])"
  by (simp add: due_packets_def)

lemma WritePackets_head:
  assumes "WritePackets enc wfn tw xs c0 = (c1, None)"
  shows "WritePackets enc wfn tw (xs @ ys) c0 = WritePackets enc wfn tw ys c1"
  using assms by (simp add: WritePackets_append)

lemma pass_rel_continue:
  assumes nk: "k \<notin> fst ` set al"
    and mc: "map_of (InFlight c) = (map_of (InFlight cl))(k := resend_outcome force nt tk)"
    and w: "WritePackets enc wfn tw (due_packets force nt [(k, tk)]) (no_table cl) = (no_table c, None)"
    and pp: "pass_rel enc wfn tw nt force al c cl' err"
  shows "pass_rel enc wfn tw nt force ((k, tk) # al) cl cl' err"
proof -
  let ?m = "map_of (InFlight cl)" and ?m' = "map_of (InFlight cl')"
  let ?W = "\<lambda>al. WritePackets enc wfn tw (due_packets force nt al) (no_table cl)"
  have shift: "?W ((k, tk) # xs) = WritePackets enc wfn tw (due_packets force nt xs) (no_table c)" for xs
    by (subst due_packets_Cons) (rule WritePackets_head [OF w])
  from pp have k': "keyed ?m'"
    and out: "\<And>j. j \<notin> fst ` set al \<Longrightarrow> ?m' j = map_of (InFlight c) j"
    and wr: "WritePackets enc wfn tw (due_packets force nt al) (no_table c) = (no_table cl', err)"
    and ok: "\<And>j tj. err = None \<Longrightarrow> (j, tj) \<in> set al \<Longrightarrow> ?m' j = resend_outcome force nt tj"
    and ab: "\<And>e. err = Some e \<Longrightarrow>
           (\<exists>al1 k' tk' al2 cb n. al = al1 @ (k', tk') # al2
              \<and> resends tk' < maxResends \<and> due force nt tk'
              \<and> snd (WritePackets enc wfn tw (due_packets force nt al1) (no_table c)) = None
              \<and> no_table cb = fst (WritePackets enc wfn tw (due_packets force nt al1) (no_table c))
              \<and> map_of (InFlight cb) k' = Some (advance nt tk')
              \<and> WritePacket enc wfn (tw k') cb (Packet (advance nt tk')) = (cl', n, Some e)
              \<and> (\<forall>j tj. (j, tj) \<in> set al1 \<longrightarrow> ?m' j = resend_outcome force nt tj)
              \<and> ?m' k' = Some (advance nt tk')
              \<and> (\<forall>j tj. (j, tj) \<in> set al2 \<longrightarrow> ?m' j = Some tj))"
    unfolding pass_rel_def by blast+
  have mk: "?m' k = resend_outcome force nt tk"
    using out [OF nk] mc by simp
  have a: "\<forall>j. j \<notin> fst ` set ((k, tk) # al) \<longrightarrow> ?m' j = ?m j"
    using out mc by auto
  have b: "?W ((k, tk) # al) = (no_table cl', err)"
    using wr by (simp only: shift)
  have c: "err = None \<longrightarrow> (\<forall>j tj. (j, tj) \<in> set ((k, tk) # al) \<longrightarrow> ?m' j = resend_outcome force nt tj)"
    using ok mk by auto
  have d: "\<exists>al1 k' tk' al2 cb n. (k, tk) # al = al1 @ (k', tk') # al2
              \<and> resends tk' < maxResends \<and> due force nt tk'
              \<and> snd (?W al1) = None
              \<and> no_table cb = fst (?W al1)
              \<and> map_of (InFlight cb) k' = Some (advance nt tk')
              \<and> WritePacket enc wfn (tw k') cb (Packet (advance nt tk')) = (cl', n, Some e)
              \<and> (\<forall>j tj. (j, tj) \<in> set al1 \<longrightarrow> ?m' j = resend_outcome force nt tj)
              \<and> ?m' k' = Some (advance nt tk')
              \<and> (\<forall>j tj. (j, tj) \<in> set al2 \<longrightarrow> ?m' j = Some tj)" if e: "err = Some e" for e
  proof -
    from ab [OF e] obtain al1 k' tk' al2 cb n where
      split: "al = al1 @ (k', tk') # al2" and lt: "resends tk' < maxResends" and du: "due force nt tk'"
      and s1: "snd (WritePackets enc wfn tw (due_packets force nt al1) (no_table c)) = None"
      and s2: "no_table cb = fst (WritePackets enc wfn tw (due_packets force nt al1) (no_table c))"
      and s3: "map_of (InFlight cb) k' = Some (advance nt tk')"
      and s4: "WritePacket enc wfn (tw k') cb (Packet (advance nt tk')) = (cl', n, Some e)"
      and s5: "\<forall>j tj. (j, tj) \<in> set al1 \<longrightarrow> ?m' j = resend_outcome force nt tj"
      and s6: "?m' k' = Some (advance nt tk')"
      and s7: "\<forall>j tj. (j, tj) \<in> set al2 \<longrightarrow> ?m' j = Some tj"
      by blast
    have 1: "(k, tk) # al = ((k, tk) # al1) @ (k', tk') # al2" using split by simp
    have 2: "snd (?W ((k, tk) # al1)) = None" using s1 by (simp only: shift)
    have 3: "no_table cb = fst (?W ((k, tk) # al1))" using s2 by (simp only: shift)
    have 5: "\<forall>j tj. (j, tj) \<in> set ((k, tk) # al1) \<longrightarrow> ?m' j = resend_outcome force nt tj"
      using s5 mk by auto
    from 1 lt du 2 3 s3 s4 5 s6 s7 show ?thesis by blast
  qed
  from k' a b c d show ?thesis unfolding pass_rel_def by blast
qed


lemma WritePackets_one:
  assumes "WritePacket enc wfn (tw (PacketID pk)) cb pk = (c2, n, r)" "no_table cb = no_table cl"
  shows "WritePackets enc wfn tw (pk # pks) (no_table cl) =
           (case r of None \<Rightarrow> WritePackets enc wfn tw pks (no_table c2) | Some e \<Rightarrow> (no_table c2, Some e))"
proof -
  have "WritePacket enc wfn (tw (PacketID pk)) (no_table cl) pk = (no_table c2, n, r)"
    using assms WritePacket_no_table [of enc wfn "tw (PacketID pk)" cb pk] by simp
  then show ?thesis by (simp split: option.splits)
qed

lemma visit_link:
  assumes ky: "keyed (map_of (InFlight cl))" and mk: "map_of (InFlight cl) k = Some tk"
  shows "(\<exists>c. ResendInflight_range enc wfn tw nt force (k # ks) cl =
                 ResendInflight_range enc wfn tw nt force ks c
            \<and> map_of (InFlight c) = (map_of (InFlight cl))(k := resend_outcome force nt tk)
            \<and> WritePackets enc wfn tw (due_packets force nt [(k, tk)]) (no_table cl) = (no_table c, None)
            \<and> (distinct (map fst (InFlight cl)) \<longrightarrow> distinct (map fst (InFlight c))))
       \<or> (\<exists>cb c2 n e. ResendInflight_range enc wfn tw nt force (k # ks) cl = Inr (c2, Some e)
            \<and> resends tk < maxResends \<and> due force nt tk
            \<and> no_table cb = no_table cl
            \<and> map_of (InFlight cb) = (map_of (InFlight cl))(k \<mapsto> advance nt tk)
            \<and> WritePacket enc wfn (tw k) cb (Packet (advance nt tk)) = (c2, n, Some e)
            \<and> (distinct (map fst (InFlight cl)) \<longrightarrow> distinct (map fst (InFlight c2))))"
proof -
  from ky mk have key: "PacketID (Packet tk) = k" and nn: "0 \<le> resends tk"
    by (auto simp add: keyed_def)
  show ?thesis
  proof (cases "maxResends \<le> resends tk")
    case True
    let ?c = "cl\<lparr>InFlight := InFlight_Delete (InFlight cl) (PacketID (Packet tk))\<rparr>"
    have 1: "ResendInflight_range enc wfn tw nt force (k # ks) cl =
          ResendInflight_range enc wfn tw nt force ks ?c"
      using mk True by simp
    have 2: "map_of (InFlight ?c) = (map_of (InFlight cl))(k := resend_outcome force nt tk)"
      using True key by (simp add: InFlight_Delete_def delete_conv' resend_outcome_def)
    have 3: "WritePackets enc wfn tw (due_packets force nt [(k, tk)]) (no_table cl) = (no_table ?c, None)"
      using True by (simp add: due_packets_single)
    have 4: "distinct (map fst (InFlight cl)) \<longrightarrow> distinct (map fst (InFlight ?c))"
      by (simp add: InFlight_Delete_def distinct_delete)
    from 1 2 3 4 show ?thesis by blast
  next
    case False
    then have lt: "resends tk < maxResends" by simp
    note bw = backoff_wait_in_range [OF nn lt, of force nt]
    show ?thesis
    proof (cases "due force nt tk")
      case nd: False
      have 1: "ResendInflight_range enc wfn tw nt force (k # ks) cl =
            ResendInflight_range enc wfn tw nt force ks cl"
        using mk False bw nd by simp
      have 2: "map_of (InFlight cl) = (map_of (InFlight cl))(k := resend_outcome force nt tk)"
        using mk False nd by (simp add: fun_eq_iff resend_outcome_def)
      have 3: "WritePackets enc wfn tw (due_packets force nt [(k, tk)]) (no_table cl) = (no_table cl, None)"
        using nd by (simp add: due_packets_single)
      from 1 2 3 show ?thesis by blast
    next
      case d: True
      let ?pk = "Packet (advance nt tk)"
      have pid: "PacketID ?pk = k" by (simp add: advance_PacketID key)
      let ?cb = "cl\<lparr>InFlight := InFlight_Set (InFlight cl) (PacketID ?pk) (advance nt tk)\<rparr>"
      obtain c2 n r where w: "WritePacket enc wfn (tw (PacketID ?pk)) ?cb ?pk = (c2, n, r)"
        by (cases "WritePacket enc wfn (tw (PacketID ?pk)) ?cb ?pk")
      have i2: "InFlight c2 = InFlight ?cb"
        using WritePacket_InFlight [of enc wfn "tw (PacketID ?pk)" ?cb ?pk] w by simp
      have d2: "distinct (map fst (InFlight cl)) \<longrightarrow> distinct (map fst (InFlight c2))"
        unfolding i2 by (simp add: InFlight_Set_def distinct_update)
      have mb: "map_of (InFlight ?cb) = (map_of (InFlight cl))(k \<mapsto> advance nt tk)"
        by (simp add: InFlight_Set_def update_conv' pid)
      have nb: "no_table ?cb = no_table cl" by simp
      note one = WritePackets_one [where tw = tw and pk = ?pk and pks = "[]", OF w nb]
      show ?thesis
      proof (cases r)
        case None
        have 1: "ResendInflight_range enc wfn tw nt force (k # ks) cl =
              ResendInflight_range enc wfn tw nt force ks c2"
          using mk False bw d w None by simp
        have 2: "map_of (InFlight c2) = (map_of (InFlight cl))(k := resend_outcome force nt tk)"
          using mb i2 False d by (simp add: resend_outcome_def)
        have 3: "WritePackets enc wfn tw (due_packets force nt [(k, tk)]) (no_table cl) = (no_table c2, None)"
          using one None lt d by (simp add: due_packets_single)
        from 1 2 3 d2 show ?thesis by blast
      next
        case (Some e)
        have 1: "ResendInflight_range enc wfn tw nt force (k # ks) cl = Inr (c2, Some e)"
          using mk False bw d w Some by simp
        have 2: "WritePacket enc wfn (tw k) ?cb ?pk = (c2, n, Some e)"
          using w Some pid by simp
        from 1 2 lt d nb mb d2 show ?thesis by blast
      qed
    qed
  qed
qed

lemma pass_rel_Nil:
  "keyed (map_of (InFlight cl)) \<Longrightarrow> pass_rel enc wfn tw nt force [] cl cl None"
  by (simp add: pass_rel_def due_packets_def)

lemma pass_rel_abort:
  assumes ky: "keyed (map_of (InFlight cl))" and mk: "map_of (InFlight cl) k = Some tk"
    and lt: "resends tk < maxResends" and du: "due force nt tk"
    and nk: "k \<notin> fst ` set al"
    and live: "\<forall>j tj. (j, tj) \<in> set al \<longrightarrow> map_of (InFlight cl) j = Some tj"
    and nb: "no_table cb = no_table cl"
    and mb: "map_of (InFlight cb) = (map_of (InFlight cl))(k \<mapsto> advance nt tk)"
    and w: "WritePacket enc wfn (tw k) cb (Packet (advance nt tk)) = (c2, n, Some e)"
  shows "pass_rel enc wfn tw nt force ((k, tk) # al) cl c2 (Some e)"
proof -
  let ?m = "map_of (InFlight cl)" and ?pk = "Packet (advance nt tk)"
  from ky mk have pid: "PacketID ?pk = k" by (simp add: advance_PacketID keyed_def)
  have i2: "InFlight c2 = InFlight cb"
    using WritePacket_InFlight [of enc wfn "tw k" cb ?pk] w by simp
  then have m2: "map_of (InFlight c2) = ?m(k \<mapsto> advance nt tk)" using mb by simp
  have 1: "keyed (map_of (InFlight c2))"
    unfolding m2 by (rule keyed_advance [OF ky mk])
  have 2: "\<forall>j. j \<notin> fst ` set ((k, tk) # al) \<longrightarrow> map_of (InFlight c2) j = ?m j"
    unfolding m2 by simp
  have w': "WritePacket enc wfn (tw (PacketID ?pk)) cb ?pk = (c2, n, Some e)"
    using w pid by simp
  have 3: "WritePackets enc wfn tw (due_packets force nt ((k, tk) # al)) (no_table cl) =
             (no_table c2, Some e)"
    using WritePackets_one [where tw = tw and pk = ?pk and pks = "due_packets force nt al", OF w' nb] lt du
    by (subst due_packets_Cons) (simp add: due_packets_single)
  have 4: "\<forall>j tj. (j, tj) \<in> set al \<longrightarrow> map_of (InFlight c2) j = Some tj"
    unfolding m2 using live nk by force
  have "(k, tk) # al = [] @ (k, tk) # al
      \<and> resends tk < maxResends \<and> due force nt tk
      \<and> snd (WritePackets enc wfn tw (due_packets force nt []) (no_table cl)) = None
      \<and> no_table cb = fst (WritePackets enc wfn tw (due_packets force nt []) (no_table cl))
      \<and> map_of (InFlight cb) k = Some (advance nt tk)
      \<and> WritePacket enc wfn (tw k) cb ?pk = (c2, n, Some e)
      \<and> (\<forall>j tj. (j, tj) \<in> set [] \<longrightarrow> map_of (InFlight c2) j = resend_outcome force nt tj)
      \<and> map_of (InFlight c2) k = Some (advance nt tk)
      \<and> (\<forall>j tj. (j, tj) \<in> set al \<longrightarrow> map_of (InFlight c2) j = Some tj)"
    using lt du nb mb w 4 m2 by (simp add: due_packets_def)
  then have 5: "\<exists>al1 k' tk' al2 cb n. (k, tk) # al = al1 @ (k', tk') # al2
      \<and> resends tk' < maxResends \<and> due force nt tk'
      \<and> snd (WritePackets enc wfn tw (due_packets force nt al1) (no_table cl)) = None
      \<and> no_table cb = fst (WritePackets enc wfn tw (due_packets force nt al1) (no_table cl))
      \<and> map_of (InFlight cb) k' = Some (advance nt tk')
      \<and> WritePacket enc wfn (tw k') cb (Packet (advance nt tk')) = (c2, n, Some e)
      \<and> (\<forall>j tj. (j, tj) \<in> set al1 \<longrightarrow> map_of (InFlight c2) j = resend_outcome force nt tj)
      \<and> map_of (InFlight c2) k' = Some (advance nt tk')
      \<and> (\<forall>j tj. (j, tj) \<in> set al2 \<longrightarrow> map_of (InFlight c2) j = Some tj)"
    by blast
  from 1 2 3 5 show ?thesis unfolding pass_rel_def by simp
qed

lemma range_pass_rel:
  assumes "distinct (map fst al)" "keyed (map_of (InFlight cl))"
    and "\<forall>j tj. (j, tj) \<in> set al \<longrightarrow> map_of (InFlight cl) j = Some tj"
  shows "\<exists>cl' err. ResendInflight_range enc wfn tw nt force (map fst al) cl = Inr (cl', err)
           \<and> pass_rel enc wfn tw nt force al cl cl' err
           \<and> (distinct (map fst (InFlight cl)) \<longrightarrow> distinct (map fst (InFlight cl')))"
  using assms
proof (induction al arbitrary: cl)
  case Nil
  then show ?case by (simp add: pass_rel_Nil)
next
  case (Cons p al)
  obtain k tk where p: "p = (k, tk)" by (cases p)
  from Cons.prems p have nk: "k \<notin> fst ` set al" and dk: "distinct (map fst al)"
    and mk: "map_of (InFlight cl) k = Some tk"
    and live: "\<forall>j tj. (j, tj) \<in> set al \<longrightarrow> map_of (InFlight cl) j = Some tj"
    by (simp_all add: image_iff) 
  note ky = Cons.prems(2)
  from visit_link [OF ky mk, of enc wfn tw nt force "map fst al"]
  show ?case
  proof (elim disjE exE conjE)
    fix c
    assume r: "ResendInflight_range enc wfn tw nt force (k # map fst al) cl =
               ResendInflight_range enc wfn tw nt force (map fst al) c"
      and mc: "map_of (InFlight c) = (map_of (InFlight cl))(k := resend_outcome force nt tk)"
      and w: "WritePackets enc wfn tw (due_packets force nt [(k, tk)]) (no_table cl) = (no_table c, None)"
      and d1: "distinct (map fst (InFlight cl)) \<longrightarrow> distinct (map fst (InFlight c))"
    have kc: "keyed (map_of (InFlight c))"
      using keyed_outcome [OF ky, of k force nt] mk unfolding mc by simp
    have lc: "\<forall>j tj. (j, tj) \<in> set al \<longrightarrow> map_of (InFlight c) j = Some tj"
      unfolding mc using live nk by force
    from Cons.IH [OF dk kc lc] obtain cl' err where
      res: "ResendInflight_range enc wfn tw nt force (map fst al) c = Inr (cl', err)"
      and pp: "pass_rel enc wfn tw nt force al c cl' err"
      and d': "distinct (map fst (InFlight c)) \<longrightarrow> distinct (map fst (InFlight cl'))"
      by blast
    have "pass_rel enc wfn tw nt force ((k, tk) # al) cl cl' err"
      by (rule pass_rel_continue [OF nk mc w pp])
    with r res d1 d' p show ?thesis by simp
  next
    fix cb c2 n e
    assume r: "ResendInflight_range enc wfn tw nt force (k # map fst al) cl = Inr (c2, Some e)"
      and lt: "resends tk < maxResends" and du: "due force nt tk"
      and nb: "no_table cb = no_table cl"
      and mb: "map_of (InFlight cb) = (map_of (InFlight cl))(k \<mapsto> advance nt tk)"
      and w: "WritePacket enc wfn (tw k) cb (Packet (advance nt tk)) = (c2, n, Some e)"
      and d2: "distinct (map fst (InFlight cl)) \<longrightarrow> distinct (map fst (InFlight c2))"
    have "pass_rel enc wfn tw nt force ((k, tk) # al) cl c2 (Some e)"
      by (rule pass_rel_abort [where tw = tw, OF ky mk lt du nk live nb mb w])
    with r d2 p show ?thesis by simp
  qed
qed


lemma table_live:
  "distinct (map fst tbl) \<Longrightarrow> (j, tj) \<in> set tbl \<Longrightarrow> map_of tbl j = Some tj"
  by simp

lemma ResendInflight_pass_rel:
  assumes "table_ok (InFlight cl)"
  shows "\<exists>cl' err. ResendInflight enc wfn tw nt force cl = Inr (cl', err)
           \<and> pass_rel enc wfn tw nt force (InFlight cl) cl cl' err
           \<and> table_ok (InFlight cl')"
proof -
  from assms have d: "distinct (map fst (InFlight cl))" and k: "keyed (map_of (InFlight cl))"
    by (simp_all add: table_ok_iff)
  have live: "\<forall>j tj. (j, tj) \<in> set (InFlight cl) \<longrightarrow> map_of (InFlight cl) j = Some tj"
    using d by simp
  from range_pass_rel [OF d k live, of enc wfn tw nt force] obtain cl' err where
    r: "ResendInflight_range enc wfn tw nt force (map fst (InFlight cl)) cl = Inr (cl', err)"
    and pp: "pass_rel enc wfn tw nt force (InFlight cl) cl cl' err"
    and d': "distinct (map fst (InFlight cl)) \<longrightarrow> distinct (map fst (InFlight cl'))"
    by blast
  from pp have "keyed (map_of (InFlight cl'))" by (simp add: pass_rel_def)
  with d d' have "table_ok (InFlight cl')" by (simp add: table_ok_iff)
  with r pp show ?thesis by (simp add: ResendInflight_range_eq)
qed

lemma outcome_below:
  "resends tj < maxResends \<Longrightarrow>
   resend_outcome force nt tj =
     Some (if \<not> force \<and> sint (nt - Sent tj) < resendBackoff ! nat (resends tj)
           then tj else advance nt tj)"
  by (simp add: resend_outcome_def due_def)

lemma outcome_expired: "maxResends \<le> resends tj \<Longrightarrow> resend_outcome force nt tj = None"
  by (simp add: resend_outcome_def)

lemma outcome_counts:
  "resend_outcome force nt tj = Some tk' \<Longrightarrow>
   resends tj < maxResends \<and> (resends tk' = resends tj \<or> resends tk' = resends tj + 1)"
  by (auto simp add: resend_outcome_def advance_resends split: if_splits)

text \<open>
  C7, amended. In a table keyed by packet id whose resend counts are not negative, a
  resend pass returns (it does not panic). The writes it makes and the error it returns
  are those of writing the packets of the due records below \<open>maxResends\<close>, advanced, in
  the order of the table, up to the first write that fails. Every record below
  \<open>maxResends\<close> that the pass reaches is treated as the claim says: left unchanged
  when \<open>force\<close> is false and \<open>nt - Sent\<close> (the \<^verbatim>\<open>int64\<close> difference) is below its
  backoff, and otherwise stored as \<open>advance nt tk\<close>, that is with the DUP flag set when
  the packet is a PUBLISH, the resend count one higher and the time of sending \<open>nt\<close>.
  A pass that returns no error has reached every record and none of its writes failed.
  A pass that returns the error \<open>e\<close> stopped at a due record \<open>k\<close>: the writes for
  the records before \<open>k\<close> succeeded, \<^verbatim>\<open>WritePacket\<close> was then called for the advanced
  packet of \<open>k\<close> on a client whose table already held the advanced record, it returned
  \<open>e\<close> and the client that the pass returns; the records before \<open>k\<close> are treated as
  above and the records after \<open>k\<close> are as they were, due or not.
\<close>

theorem ResendInflight_visited:
  assumes "table_ok (InFlight cl)"
  shows "\<exists>cl' err. ResendInflight enc wfn tw nt force cl = Inr (cl', err)
    \<and> WritePackets enc wfn tw (due_packets force nt (InFlight cl)) (cl\<lparr>InFlight := []\<rparr>) =
        (cl'\<lparr>InFlight := []\<rparr>, err)
    \<and> (err = None \<longrightarrow>
         (\<forall>k tk. map_of (InFlight cl) k = Some tk \<and> resends tk < maxResends \<longrightarrow>
            map_of (InFlight cl') k =
              Some (if \<not> force \<and> sint (nt - Sent tk) < resendBackoff ! nat (resends tk)
                    then tk else advance nt tk)))
    \<and> (\<forall>e. err = Some e \<longrightarrow>
         (\<exists>al1 k tk al2 cb n. InFlight cl = al1 @ (k, tk) # al2
            \<and> resends tk < maxResends
            \<and> \<not> (\<not> force \<and> sint (nt - Sent tk) < resendBackoff ! nat (resends tk))
            \<and> WritePackets enc wfn tw (due_packets force nt al1) (cl\<lparr>InFlight := []\<rparr>) =
                (cb\<lparr>InFlight := []\<rparr>, None)
            \<and> map_of (InFlight cb) k = Some (advance nt tk)
            \<and> WritePacket enc wfn (tw k) cb (Packet (advance nt tk)) = (cl', n, Some e)
            \<and> map_of (InFlight cl') k = Some (advance nt tk)
            \<and> (\<forall>j tj. (j, tj) \<in> set al1 \<and> resends tj < maxResends \<longrightarrow>
                  map_of (InFlight cl') j =
                    Some (if \<not> force \<and> sint (nt - Sent tj) < resendBackoff ! nat (resends tj)
                          then tj else advance nt tj))
            \<and> (\<forall>j tj. (j, tj) \<in> set al2 \<longrightarrow> map_of (InFlight cl') j = Some tj)))
    \<and> (\<forall>tk. advance nt tk =
          tk\<lparr>Packet := (Packet tk)\<lparr>FixedHeader := (FixedHeader (Packet tk))
                \<lparr>Dup := (Type (FixedHeader (Packet tk)) = Publish \<or> Dup (FixedHeader (Packet tk)))\<rparr>\<rparr>,
             resends := resends tk + 1, Sent := nt\<rparr>)"
proof -
  let ?m = "map_of (InFlight cl)"
  from ResendInflight_pass_rel [OF assms, of enc wfn tw nt force] obtain cl' err where
    r: "ResendInflight enc wfn tw nt force cl = Inr (cl', err)"
    and pp: "pass_rel enc wfn tw nt force (InFlight cl) cl cl' err"
    by blast
  let ?m' = "map_of (InFlight cl')"
  from pp have w: "WritePackets enc wfn tw (due_packets force nt (InFlight cl)) (cl\<lparr>InFlight := []\<rparr>) =
        (cl'\<lparr>InFlight := []\<rparr>, err)"
    by (simp add: pass_rel_def no_table_def)
  have a: "err = None \<longrightarrow>
         (\<forall>k tk. ?m k = Some tk \<and> resends tk < maxResends \<longrightarrow>
            ?m' k = Some (if \<not> force \<and> sint (nt - Sent tk) < resendBackoff ! nat (resends tk)
                    then tk else advance nt tk))"
  proof (intro impI allI)
    fix k tk
    assume n: "err = None" and h: "?m k = Some tk \<and> resends tk < maxResends"
    then have "(k, tk) \<in> set (InFlight cl)" by (simp add: map_of_SomeD)
    with pp n have "?m' k = resend_outcome force nt tk" by (simp add: pass_rel_def)
    with h show "?m' k = Some (if \<not> force \<and> sint (nt - Sent tk) < resendBackoff ! nat (resends tk)
                    then tk else advance nt tk)" by (simp add: outcome_below)
  qed
  have b: "\<exists>al1 k tk al2 cb n. InFlight cl = al1 @ (k, tk) # al2
            \<and> resends tk < maxResends
            \<and> \<not> (\<not> force \<and> sint (nt - Sent tk) < resendBackoff ! nat (resends tk))
            \<and> WritePackets enc wfn tw (due_packets force nt al1) (cl\<lparr>InFlight := []\<rparr>) =
                (cb\<lparr>InFlight := []\<rparr>, None)
            \<and> map_of (InFlight cb) k = Some (advance nt tk)
            \<and> WritePacket enc wfn (tw k) cb (Packet (advance nt tk)) = (cl', n, Some e)
            \<and> ?m' k = Some (advance nt tk)
            \<and> (\<forall>j tj. (j, tj) \<in> set al1 \<and> resends tj < maxResends \<longrightarrow>
                  ?m' j = Some (if \<not> force \<and> sint (nt - Sent tj) < resendBackoff ! nat (resends tj)
                          then tj else advance nt tj))
            \<and> (\<forall>j tj. (j, tj) \<in> set al2 \<longrightarrow> ?m' j = Some tj)" if e: "err = Some e" for e
  proof -
    from pp e obtain al1 k tk al2 cb n where
      split: "InFlight cl = al1 @ (k, tk) # al2" and lt: "resends tk < maxResends"
      and d: "due force nt tk"
      and s1: "snd (WritePackets enc wfn tw (due_packets force nt al1) (no_table cl)) = None"
      and s2: "no_table cb = fst (WritePackets enc wfn tw (due_packets force nt al1) (no_table cl))"
      and s3: "map_of (InFlight cb) k = Some (advance nt tk)"
      and s4: "WritePacket enc wfn (tw k) cb (Packet (advance nt tk)) = (cl', n, Some e)"
      and s5: "\<forall>j tj. (j, tj) \<in> set al1 \<longrightarrow> ?m' j = resend_outcome force nt tj"
      and s6: "?m' k = Some (advance nt tk)"
      and s7: "\<forall>j tj. (j, tj) \<in> set al2 \<longrightarrow> ?m' j = Some tj"
      unfolding pass_rel_def by blast
    have wp: "WritePackets enc wfn tw (due_packets force nt al1) (cl\<lparr>InFlight := []\<rparr>) =
                (cb\<lparr>InFlight := []\<rparr>, None)"
      using s1 s2 by (simp add: no_table_def prod_eq_iff)
    have pre: "\<forall>j tj. (j, tj) \<in> set al1 \<and> resends tj < maxResends \<longrightarrow>
                  ?m' j = Some (if \<not> force \<and> sint (nt - Sent tj) < resendBackoff ! nat (resends tj)
                          then tj else advance nt tj)"
    proof (intro allI impI)
      fix j tj
      assume h: "(j, tj) \<in> set al1 \<and> resends tj < maxResends"
      with s5 have "?m' j = resend_outcome force nt tj" by blast
      with h show "?m' j = Some (if \<not> force \<and> sint (nt - Sent tj) < resendBackoff ! nat (resends tj)
                          then tj else advance nt tj)"
        by (simp only: outcome_below)
    qed
    from d have nd: "\<not> (\<not> force \<and> sint (nt - Sent tk) < resendBackoff ! nat (resends tk))"
      by (auto simp add: due_def)
    from split lt nd wp s3 s4 s6 pre s7 show ?thesis by blast
  qed
  from r w a b advance_eq show ?thesis by blast
qed

lemma ex_resender_ok: "table_ok (InFlight ex_resender)"
  by (simp add: ex_resender_def table_ok_def ex_msg_def ex_publish_def zero_Packet_def)

lemma ex_resender_pass:
  "ResendInflight ex_encode ex_write ex_clock 100 False ex_resender =
     Inr (ex_client\<lparr>InFlight := [(1, advance 100 (ex_msg 1 0 0)), (2, ex_msg 2 100 1)],
                    wtr := ex_writer\<lparr>Mu_acquired := 1, wbuf := [Publish]\<rparr>\<rparr>, None)"
  by (simp add: ResendInflight_def InFlight_Len_def ex_resender_def ex_msg_def ex_publish_def
      zero_Packet_def maxResends_def backoff_wait_def resendBackoff_def InFlight_Delete_def
      InFlight_Set_def advance_def set_dup_def WritePacket_def encode_switch_def ex_encode_def
      ex_write_def Mu_Lock_def refreshDeadline_def ex_client_def NewClient_def ex_writer_def
      ex_conn_def ex_clock_def defaultKeepalive_def Second_def ex_reader_def
      Connect_def Connack_def Publish_def)

lemma ex_two_due_ok: "table_ok (InFlight ex_two_due)"
  by (simp add: ex_two_due_def table_ok_def ex_msg_def ex_publish_def zero_Packet_def)

lemma ex_two_due_pass:
  "ResendInflight ex_encode ex_write_fail ex_clock 100 True ex_two_due =
     Inr (ex_client\<lparr>InFlight := [(1, advance 100 (ex_msg 1 0 0)), (2, ex_msg 2 0 0)],
                    wtr := ex_writer\<lparr>Mu_acquired := 1\<rparr>\<rparr>, Some (ErrExternal 1))"
  by (simp add: ResendInflight_def InFlight_Len_def ex_two_due_def ex_msg_def ex_publish_def
      zero_Packet_def maxResends_def backoff_wait_def resendBackoff_def InFlight_Delete_def
      InFlight_Set_def advance_def set_dup_def WritePacket_def encode_switch_def ex_encode_def
      ex_write_fail_def Mu_Lock_def refreshDeadline_def ex_client_def NewClient_def ex_writer_def
      ex_conn_def ex_clock_def defaultKeepalive_def Second_def ex_reader_def
      Connect_def Connack_def Publish_def)

lemma ex_closed_expired_pass:
  "ResendInflight ex_encode ex_write ex_clock 100 False ex_closed_expired =
     Inr (ex_stopped\<lparr>InFlight := [(1, advance 100 (ex_msg 1 0 0)), (2, ex_msg 2 0 6)]\<rparr>,
          Some ErrConnectionClosed)"
  by (simp add: ResendInflight_def InFlight_Len_def ex_closed_expired_def ex_msg_def ex_publish_def
      zero_Packet_def maxResends_def backoff_wait_def resendBackoff_def InFlight_Delete_def
      InFlight_Set_def advance_def set_dup_def WritePacket_def ex_stopped_def
      ex_client_def NewClient_def refreshDeadline_def)

lemma ex_resender_writes:
  "snd (WritePackets ex_encode ex_write ex_clock (due_packets False 100 (InFlight ex_resender))
          (ex_resender\<lparr>InFlight := []\<rparr>)) = None"
  by (simp add: due_packets_def due_def ex_resender_def ex_msg_def maxResends_def
      resendBackoff_def WritePacket_def encode_switch_def ex_encode_def ex_write_def
      ex_client_def NewClient_def refreshDeadline_def advance_def set_dup_def ex_publish_def
      zero_Packet_def Connect_def Connack_def Publish_def Mu_Lock_def)

lemma ex_two_due_writes:
  "snd (WritePackets ex_encode ex_write_fail ex_clock (due_packets True 100 (InFlight ex_two_due))
          (ex_two_due\<lparr>InFlight := []\<rparr>)) = Some (ErrExternal 1)"
  by (simp add: due_packets_def due_def ex_two_due_def ex_msg_def maxResends_def
      resendBackoff_def WritePacket_def encode_switch_def ex_encode_def ex_write_fail_def
      ex_client_def NewClient_def refreshDeadline_def advance_def set_dup_def ex_publish_def
      zero_Packet_def Connect_def Connack_def Publish_def Mu_Lock_def)

theorem ResendInflight_visited_witness:
  "table_ok (InFlight ex_resender)
   \<and> snd (projr (ResendInflight ex_encode ex_write ex_clock 100 False ex_resender)) = None
   \<and> map_of (InFlight (fst (projr (ResendInflight ex_encode ex_write ex_clock 100 False ex_resender)))) 1
        = Some (advance 100 (ex_msg 1 0 0))
   \<and> map_of (InFlight (fst (projr (ResendInflight ex_encode ex_write ex_clock 100 False ex_resender)))) 2
        = Some (ex_msg 2 100 1)
   \<and> resends (advance 100 (ex_msg 1 0 0)) = 1
   \<and> Sent (advance 100 (ex_msg 1 0 0)) = 100
   \<and> Dup (FixedHeader (Packet (advance 100 (ex_msg 1 0 0))))
   \<and> table_ok (InFlight ex_two_due)
   \<and> snd (projr (ResendInflight ex_encode ex_write_fail ex_clock 100 True ex_two_due))
        = Some (ErrExternal 1)"
proof -
  from ResendInflight_visited [OF ex_resender_ok, of ex_encode ex_write ex_clock 100 False]
  obtain cl' err where
    r: "ResendInflight ex_encode ex_write ex_clock 100 False ex_resender = Inr (cl', err)"
    and w: "WritePackets ex_encode ex_write ex_clock (due_packets False 100 (InFlight ex_resender))
              (ex_resender\<lparr>InFlight := []\<rparr>) = (cl'\<lparr>InFlight := []\<rparr>, err)"
    and a: "err = None \<longrightarrow>
         (\<forall>k tk. map_of (InFlight ex_resender) k = Some tk \<and> resends tk < maxResends \<longrightarrow>
            map_of (InFlight cl') k =
              Some (if \<not> False \<and> sint (100 - Sent tk) < resendBackoff ! nat (resends tk)
                    then tk else advance 100 tk))"
    and adv: "\<forall>tk. advance 100 tk =
          tk\<lparr>Packet := (Packet tk)\<lparr>FixedHeader := (FixedHeader (Packet tk))
                \<lparr>Dup := (Type (FixedHeader (Packet tk)) = Publish \<or> Dup (FixedHeader (Packet tk)))\<rparr>\<rparr>,
             resends := resends tk + 1, Sent := 100\<rparr>"
    by blast
  from w ex_resender_writes have e: "err = None" by simp
  have 1: "map_of (InFlight ex_resender) 1 = Some (ex_msg 1 0 0) \<and> resends (ex_msg 1 0 0) < maxResends"
    by (simp add: ex_resender_def ex_msg_def maxResends_def)
  have 2: "map_of (InFlight ex_resender) 2 = Some (ex_msg 2 100 1) \<and> resends (ex_msg 2 100 1) < maxResends"
    by (simp add: ex_resender_def ex_msg_def maxResends_def)
  from a e 1 have "map_of (InFlight cl') 1 =
      Some (if \<not> False \<and> sint (100 - Sent (ex_msg 1 0 0)) < resendBackoff ! nat (resends (ex_msg 1 0 0))
            then ex_msg 1 0 0 else advance 100 (ex_msg 1 0 0))"
    by blast
  then have m1: "map_of (InFlight cl') 1 = Some (advance 100 (ex_msg 1 0 0))"
    by (simp add: ex_msg_def resendBackoff_def)
  from a e 2 have "map_of (InFlight cl') 2 =
      Some (if \<not> False \<and> sint (100 - Sent (ex_msg 2 100 1)) < resendBackoff ! nat (resends (ex_msg 2 100 1))
            then ex_msg 2 100 1 else advance 100 (ex_msg 2 100 1))"
    by blast
  then have m2: "map_of (InFlight cl') 2 = Some (ex_msg 2 100 1)"
    by (simp add: ex_msg_def resendBackoff_def)
  from adv have f: "resends (advance 100 (ex_msg 1 0 0)) = 1 \<and> Sent (advance 100 (ex_msg 1 0 0)) = 100
     \<and> Dup (FixedHeader (Packet (advance 100 (ex_msg 1 0 0))))"
    by (simp add: ex_msg_def ex_publish_def)
  from ResendInflight_visited [OF ex_two_due_ok, of ex_encode ex_write_fail ex_clock 100 True]
  obtain cl2 err2 where
    r2: "ResendInflight ex_encode ex_write_fail ex_clock 100 True ex_two_due = Inr (cl2, err2)"
    and w2: "WritePackets ex_encode ex_write_fail ex_clock (due_packets True 100 (InFlight ex_two_due))
              (ex_two_due\<lparr>InFlight := []\<rparr>) = (cl2\<lparr>InFlight := []\<rparr>, err2)"
    by blast
  from w2 ex_two_due_writes have e2: "err2 = Some (ErrExternal 1)" by simp
  from r e m1 m2 f ex_resender_ok r2 e2 ex_two_due_ok show ?thesis by simp
qed

text \<open>
  The claim as stated fails for a record behind a failed write: with two records that
  are both due and a writer that fails, the pass advances the first, returns the
  error, and leaves the second as it was.
\<close>

theorem ResendInflight_unreached_counterexample:
  "table_ok (InFlight ex_two_due)
   \<and> map_of (InFlight ex_two_due) 2 = Some (ex_msg 2 0 0)
   \<and> resends (ex_msg 2 0 0) < maxResends
   \<and> snd (projr (ResendInflight ex_encode ex_write_fail ex_clock 100 True ex_two_due)) = Some (ErrExternal 1)
   \<and> map_of (InFlight (fst (projr (ResendInflight ex_encode ex_write_fail ex_clock 100 True ex_two_due)))) 2
        = Some (ex_msg 2 0 0)
   \<and> resends (ex_msg 2 0 0) \<noteq> resends (advance 100 (ex_msg 2 0 0))"
  by (simp add: ex_two_due_pass ex_two_due_ok)
     (simp add: ex_two_due_def ex_msg_def maxResends_def advance_def set_dup_def)

lemma pass_rel_pointwise:
  assumes pp: "pass_rel enc wfn tw nt force al cl cl' err"
    and live: "\<forall>j tj. (j, tj) \<in> set al \<longrightarrow> map_of (InFlight cl) j = Some tj"
  shows "map_of (InFlight cl') j = map_of (InFlight cl) j
      \<or> (\<exists>tj. map_of (InFlight cl) j = Some tj
            \<and> (map_of (InFlight cl') j = resend_outcome force nt tj
               \<or> resends tj < maxResends \<and> map_of (InFlight cl') j = Some (advance nt tj)))"
proof (cases "j \<in> fst ` set al")
  case False
  with pp show ?thesis by (simp add: pass_rel_def)
next
  case True
  then obtain tj where in_al: "(j, tj) \<in> set al" by force
  with live have mj: "map_of (InFlight cl) j = Some tj" by blast
  show ?thesis
  proof (cases err)
    case None
    with pp in_al have "map_of (InFlight cl') j = resend_outcome force nt tj"
      by (simp add: pass_rel_def)
    with mj show ?thesis by simp
  next
    case (Some e)
    with pp obtain al1 k tk al2 where
      split: "al = al1 @ (k, tk) # al2" and lt: "resends tk < maxResends"
      and s5: "\<forall>j tj. (j, tj) \<in> set al1 \<longrightarrow> map_of (InFlight cl') j = resend_outcome force nt tj"
      and s6: "map_of (InFlight cl') k = Some (advance nt tk)"
      and s7: "\<forall>j tj. (j, tj) \<in> set al2 \<longrightarrow> map_of (InFlight cl') j = Some tj"
      unfolding pass_rel_def by blast
    from in_al split have "(j, tj) \<in> set al1 \<or> (j, tj) = (k, tk) \<or> (j, tj) \<in> set al2" by auto
    with mj lt s5 s6 s7 show ?thesis by auto
  qed
qed

text \<open>
  C8, amended. Across a resend pass over a table keyed by packet id whose resend counts
  are not negative: every record in the table afterwards was in it before under the same
  key, with a resend count no higher than it has now; every record whose resend count
  was at least \<open>maxResends\<close> and that the pass reached is gone: all such records after a
  pass that returns no error, and, after a pass that returns an error, those before the
  record \<open>k\<close> whose write failed, while the records after \<open>k\<close> are as they were;
  and if every resend count was at most \<open>maxResends\<close> before, so is every one
  afterwards, whether the pass returned an error or not. The error of the pass is that of
  the first failing write of a due packet, and the table afterwards is again keyed by
  packet id.
\<close>

theorem ResendInflight_counts:
  assumes "table_ok (InFlight cl)"
  shows "\<exists>cl' err. ResendInflight enc wfn tw nt force cl = Inr (cl', err)
     \<and> WritePackets enc wfn tw (due_packets force nt (InFlight cl)) (cl\<lparr>InFlight := []\<rparr>) =
         (cl'\<lparr>InFlight := []\<rparr>, err)
     \<and> (\<forall>k tk'. map_of (InFlight cl') k = Some tk' \<longrightarrow>
           (\<exists>tk. map_of (InFlight cl) k = Some tk \<and> resends tk \<le> resends tk'))
     \<and> (err = None \<longrightarrow>
           (\<forall>k tk. map_of (InFlight cl) k = Some tk \<and> maxResends \<le> resends tk \<longrightarrow>
              map_of (InFlight cl') k = None))
     \<and> (\<forall>e. err = Some e \<longrightarrow>
           (\<exists>al1 k tk al2 cb n. InFlight cl = al1 @ (k, tk) # al2
              \<and> resends tk < maxResends
              \<and> WritePackets enc wfn tw (due_packets force nt al1) (cl\<lparr>InFlight := []\<rparr>) =
                  (cb\<lparr>InFlight := []\<rparr>, None)
              \<and> WritePacket enc wfn (tw k) cb (Packet (advance nt tk)) = (cl', n, Some e)
              \<and> (\<forall>j tj. (j, tj) \<in> set al1 \<and> maxResends \<le> resends tj \<longrightarrow>
                    map_of (InFlight cl') j = None)
              \<and> (\<forall>j tj. (j, tj) \<in> set al2 \<longrightarrow> map_of (InFlight cl') j = Some tj)))
     \<and> ((\<forall>k tk. map_of (InFlight cl) k = Some tk \<longrightarrow> resends tk \<le> maxResends) \<longrightarrow>
           (\<forall>k tk. map_of (InFlight cl') k = Some tk \<longrightarrow> resends tk \<le> maxResends))
     \<and> table_ok (InFlight cl')"
proof -
  let ?m = "map_of (InFlight cl)"
  from ResendInflight_pass_rel [OF assms, of enc wfn tw nt force] obtain cl' err where
    r: "ResendInflight enc wfn tw nt force cl = Inr (cl', err)"
    and pp: "pass_rel enc wfn tw nt force (InFlight cl) cl cl' err"
    and ok: "table_ok (InFlight cl')"
    by blast
  let ?m' = "map_of (InFlight cl')"
  from assms have live: "\<forall>j tj. (j, tj) \<in> set (InFlight cl) \<longrightarrow> ?m j = Some tj"
    by (simp add: table_ok_def)
  from pp have w: "WritePackets enc wfn tw (due_packets force nt (InFlight cl)) (cl\<lparr>InFlight := []\<rparr>) =
        (cl'\<lparr>InFlight := []\<rparr>, err)"
    by (simp add: pass_rel_def no_table_def)
  have src: "\<exists>tk. ?m k = Some tk \<and> resends tk \<le> resends tk'
                \<and> (resends tk' = resends tk \<or> resends tk < maxResends \<and> resends tk' = resends tk + 1)"
    if h: "?m' k = Some tk'" for k tk'
  proof -
    from pass_rel_pointwise [OF pp live, of k]
    consider "?m' k = ?m k"
      | tk where "?m k = Some tk" "?m' k = resend_outcome force nt tk"
      | tk where "?m k = Some tk" "resends tk < maxResends" "?m' k = Some (advance nt tk)"
      by blast
    then show ?thesis
    proof cases
      case 1
      with h show ?thesis by simp
    next
      case 2
      with h outcome_counts [of force nt tk tk'] show ?thesis by auto
    next
      case 3
      with h show ?thesis by (auto simp add: advance_resends)
    qed
  qed
  have a: "\<forall>k tk'. ?m' k = Some tk' \<longrightarrow> (\<exists>tk. ?m k = Some tk \<and> resends tk \<le> resends tk')"
    using src by blast
  have b: "err = None \<longrightarrow>
           (\<forall>k tk. ?m k = Some tk \<and> maxResends \<le> resends tk \<longrightarrow> ?m' k = None)"
  proof (intro impI allI)
    fix k tk
    assume n: "err = None" and h: "?m k = Some tk \<and> maxResends \<le> resends tk"
    then have "(k, tk) \<in> set (InFlight cl)" by (simp add: map_of_SomeD)
    with pp n have "?m' k = resend_outcome force nt tk" by (simp add: pass_rel_def)
    with h show "?m' k = None" by (simp add: outcome_expired)
  qed
  have c: "\<exists>al1 k tk al2 cb n. InFlight cl = al1 @ (k, tk) # al2
              \<and> resends tk < maxResends
              \<and> WritePackets enc wfn tw (due_packets force nt al1) (cl\<lparr>InFlight := []\<rparr>) =
                  (cb\<lparr>InFlight := []\<rparr>, None)
              \<and> WritePacket enc wfn (tw k) cb (Packet (advance nt tk)) = (cl', n, Some e)
              \<and> (\<forall>j tj. (j, tj) \<in> set al1 \<and> maxResends \<le> resends tj \<longrightarrow> ?m' j = None)
              \<and> (\<forall>j tj. (j, tj) \<in> set al2 \<longrightarrow> ?m' j = Some tj)" if e: "err = Some e" for e
  proof -
    from pp e obtain al1 k tk al2 cb n where
      split: "InFlight cl = al1 @ (k, tk) # al2" and lt: "resends tk < maxResends"
      and s1: "snd (WritePackets enc wfn tw (due_packets force nt al1) (no_table cl)) = None"
      and s2: "no_table cb = fst (WritePackets enc wfn tw (due_packets force nt al1) (no_table cl))"
      and s4: "WritePacket enc wfn (tw k) cb (Packet (advance nt tk)) = (cl', n, Some e)"
      and s5: "\<forall>j tj. (j, tj) \<in> set al1 \<longrightarrow> ?m' j = resend_outcome force nt tj"
      and s7: "\<forall>j tj. (j, tj) \<in> set al2 \<longrightarrow> ?m' j = Some tj"
      unfolding pass_rel_def by blast
    have wp: "WritePackets enc wfn tw (due_packets force nt al1) (cl\<lparr>InFlight := []\<rparr>) =
                (cb\<lparr>InFlight := []\<rparr>, None)"
      using s1 s2 by (simp add: no_table_def prod_eq_iff)
    have pre: "\<forall>j tj. (j, tj) \<in> set al1 \<and> maxResends \<le> resends tj \<longrightarrow> ?m' j = None"
    proof (intro allI impI)
      fix j tj
      assume h: "(j, tj) \<in> set al1 \<and> maxResends \<le> resends tj"
      with s5 have "?m' j = resend_outcome force nt tj" by blast
      with h show "?m' j = None" by (simp only: outcome_expired)
    qed
    from split lt wp s4 pre s7 show ?thesis by blast
  qed
  have d: "(\<forall>k tk. ?m k = Some tk \<longrightarrow> resends tk \<le> maxResends) \<longrightarrow>
           (\<forall>k tk. ?m' k = Some tk \<longrightarrow> resends tk \<le> maxResends)"
  proof (intro impI allI)
    fix k tk'
    assume inv: "\<forall>k tk. ?m k = Some tk \<longrightarrow> resends tk \<le> maxResends" and h: "?m' k = Some tk'"
    from src [OF h] obtain tk where "?m k = Some tk"
      and "resends tk' = resends tk \<or> resends tk < maxResends \<and> resends tk' = resends tk + 1"
      by blast
    with inv show "resends tk' \<le> maxResends" by force
  qed
  from r w a b c d ok show ?thesis by blast
qed

theorem ResendInflight_counts_witness:
  "table_ok (InFlight ex_resender)
   \<and> map_of (InFlight ex_resender) 3 = Some (ex_msg 3 0 6)
   \<and> snd (projr (ResendInflight ex_encode ex_write ex_clock 100 False ex_resender)) = None
   \<and> map_of (InFlight (fst (projr (ResendInflight ex_encode ex_write ex_clock 100 False ex_resender)))) 3
        = None
   \<and> table_ok (InFlight (fst (projr (ResendInflight ex_encode ex_write ex_clock 100 False ex_resender))))"
proof -
  from ResendInflight_counts [OF ex_resender_ok, of ex_encode ex_write ex_clock 100 False]
  obtain cl' err where
    r: "ResendInflight ex_encode ex_write ex_clock 100 False ex_resender = Inr (cl', err)"
    and w: "WritePackets ex_encode ex_write ex_clock (due_packets False 100 (InFlight ex_resender))
              (ex_resender\<lparr>InFlight := []\<rparr>) = (cl'\<lparr>InFlight := []\<rparr>, err)"
    and b: "err = None \<longrightarrow>
           (\<forall>k tk. map_of (InFlight ex_resender) k = Some tk \<and> maxResends \<le> resends tk \<longrightarrow>
              map_of (InFlight cl') k = None)"
    and ok: "table_ok (InFlight cl')"
    by blast
  from w ex_resender_writes have e: "err = None" by simp
  have 3: "map_of (InFlight ex_resender) 3 = Some (ex_msg 3 0 6) \<and> maxResends \<le> resends (ex_msg 3 0 6)"
    by (simp add: ex_resender_def ex_msg_def maxResends_def)
  with b e have "map_of (InFlight cl') 3 = None" by blast
  with r e 3 ok ex_resender_ok show ?thesis by simp
qed

text \<open>
  The claim as stated fails when a write fails before the pass is through: on a closed
  client the first record is due, its write returns \<^verbatim>\<open>ErrConnectionClosed\<close>, the pass
  returns, and the record behind it, whose resend count is \<open>maxResends\<close>, stays in the table.
\<close>

theorem ResendInflight_expired_kept_counterexample:
  "table_ok (InFlight ex_closed_expired)
   \<and> map_of (InFlight ex_closed_expired) 2 = Some (ex_msg 2 0 6)
   \<and> maxResends \<le> resends (ex_msg 2 0 6)
   \<and> snd (projr (ResendInflight ex_encode ex_write ex_clock 100 False ex_closed_expired))
        = Some ErrConnectionClosed
   \<and> map_of (InFlight (fst (projr (ResendInflight ex_encode ex_write ex_clock 100 False ex_closed_expired)))) 2
        = Some (ex_msg 2 0 6)"
  by (simp add: ex_closed_expired_pass)
     (simp add: ex_closed_expired_def ex_msg_def maxResends_def table_ok_def ex_publish_def
       zero_Packet_def)

subsection \<open>Stopping a client\<close>

lemma stop_inv_init:
  "endOnce (state cl) = Fresh \<Longrightarrow> done_flag (state cl) = 0 \<Longrightarrow> stop_inv (world_of cl)"
  by (simp add: stop_inv_def world_of_def)

lemma stop_inv_call:
  assumes "stop_inv s" "stop_step (CallStop t) s = Some s'"
  shows "stop_inv s'"
proof (cases "endOnce (wstate s)")
  case Fresh
  with assms(2) have s': "s' = goto t AtReaderStop
                     (s\<lparr>wstate := (wstate s)\<lparr>endOnce := Running\<rparr>,
                        calls := Suc (calls s), bodies := Suc (bodies s), runner := t\<rparr>)"
    by (simp split: if_splits)
  from assms(1) Fresh show ?thesis
    by (simp add: stop_inv_def s' goto_def inbody_def Stop_body_def)
next
  case Running
  from assms(2) Running have o: "pcs s t = Outside"
    and s': "s' = goto t AtOnceWait (s\<lparr>calls := Suc (calls s)\<rparr>)"
    by (simp_all split: if_splits)
  from assms(1) Running o have ne: "t \<noteq> runner s"
    by (auto simp add: stop_inv_def inbody_def)
  from assms(1) Running ne show ?thesis
    by (simp add: stop_inv_def s' goto_def inbody_def)
next
  case Finished
  with assms(2) have s': "s' = s\<lparr>calls := Suc (calls s)\<rparr>"
    by (simp split: if_splits)
  from assms(1) Finished show ?thesis
    by (simp add: stop_inv_def s')
qed

lemma stop_inv_inbody:
  assumes "stop_inv s" "inbody (pcs s t)"
  shows "endOnce (wstate s) = Running \<and> t = runner s"
proof (cases "endOnce (wstate s)")
  case Fresh
  with assms show ?thesis by (simp add: stop_inv_def inbody_def)
next
  case Running
  with assms show ?thesis by (auto simp add: stop_inv_def)
next
  case Finished
  with assms show ?thesis by (simp add: stop_inv_def)
qed

lemma stop_inv_running:
  assumes "stop_inv s" "endOnce (wstate s) = Running"
  shows "0 < calls s" "bodies s = 1" "\<forall>u. u \<noteq> runner s \<longrightarrow> \<not> inbody (pcs s u)"
    "trace s = take (pos (pcs s (runner s))) Stop_body"
    "done_flag (wstate s) = (if pcs s (runner s) = AtOnceDone then 1 else 0)"
  using assms by (simp_all add: stop_inv_def)

lemma stop_inv_body_step:
  assumes "stop_inv s" "endOnce (wstate s) = Running" "t = runner s"
    and "pcs s t = p" "inbody p'" "p \<noteq> AtOnceDone"
    and "p' = AtOnceDone \<longrightarrow> d = 1" "p' \<noteq> AtOnceDone \<longrightarrow> d = done_flag (wstate s)"
    and "take (pos p) Stop_body @ [e] = take (pos p') Stop_body"
  shows "stop_inv (goto t p' (emit e (s\<lparr>wstate := (wstate s)\<lparr>done_flag := d\<rparr>\<rparr>)))"
proof -
  note r = stop_inv_running [OF assms(1,2)]
  from r(5) assms(3,4,6) have d0: "done_flag (wstate s) = 0" by simp
  show ?thesis
    using assms r(1,2,3,4) d0
    by (simp add: stop_inv_def goto_def emit_def)
qed

lemma stop_inv_advance:
  assumes "stop_inv s" "stop_step (Advance t) s = Some s'"
  shows "stop_inv s'"
proof (cases "pcs s t")
  case Outside
  with assms(2) show ?thesis by simp
next
  case AtOnceWait
  with assms(2) have f: "endOnce (wstate s) = Finished" and s': "s' = goto t Outside s"
    by (simp_all split: if_splits)
  from assms(1) f show ?thesis by (simp add: stop_inv_def s' goto_def inbody_def)
next
  case AtReaderStop
  then have "inbody (pcs s t)" by (simp add: inbody_def)
  from stop_inv_inbody [OF assms(1) this] have run: "endOnce (wstate s) = Running" and t: "t = runner s"
    by simp_all
  from assms(2) AtReaderStop have s': "s' = goto t AtWriterStop (emit ReaderStop s)" by simp
  have "stop_inv (goto t AtWriterStop (emit ReaderStop (s\<lparr>wstate := (wstate s)\<lparr>done_flag := done_flag (wstate s)\<rparr>\<rparr>)))"
    by (rule stop_inv_body_step [OF assms(1) run t AtReaderStop]) (simp_all add: inbody_def Stop_body_def)
  then show ?thesis by (simp add: s')
next
  case AtWriterStop
  then have "inbody (pcs s t)" by (simp add: inbody_def)
  from stop_inv_inbody [OF assms(1) this] have run: "endOnce (wstate s) = Running" and t: "t = runner s"
    by simp_all
  from assms(2) AtWriterStop have s': "s' = goto t AtWaitW (emit WriterStop s)" by simp
  have "stop_inv (goto t AtWaitW (emit WriterStop (s\<lparr>wstate := (wstate s)\<lparr>done_flag := done_flag (wstate s)\<rparr>\<rparr>)))"
    by (rule stop_inv_body_step [OF assms(1) run t AtWriterStop]) (simp_all add: inbody_def Stop_body_def)
  then show ?thesis by (simp add: s')
next
  case AtWaitW
  then have "inbody (pcs s t)" by (simp add: inbody_def)
  from stop_inv_inbody [OF assms(1) this] have run: "endOnce (wstate s) = Running" and t: "t = runner s"
    by simp_all
  from assms(2) AtWaitW have s': "s' = goto t AtWaitR (emit WaitEndedW s)" by (simp split: if_splits)
  have "stop_inv (goto t AtWaitR (emit WaitEndedW (s\<lparr>wstate := (wstate s)\<lparr>done_flag := done_flag (wstate s)\<rparr>\<rparr>)))"
    by (rule stop_inv_body_step [OF assms(1) run t AtWaitW]) (simp_all add: inbody_def Stop_body_def)
  then show ?thesis by (simp add: s')
next
  case AtWaitR
  then have "inbody (pcs s t)" by (simp add: inbody_def)
  from stop_inv_inbody [OF assms(1) this] have run: "endOnce (wstate s) = Running" and t: "t = runner s"
    by simp_all
  from assms(2) AtWaitR have s': "s' = goto t AtStoreDone (emit WaitEndedR s)" by (simp split: if_splits)
  have "stop_inv (goto t AtStoreDone (emit WaitEndedR (s\<lparr>wstate := (wstate s)\<lparr>done_flag := done_flag (wstate s)\<rparr>\<rparr>)))"
    by (rule stop_inv_body_step [OF assms(1) run t AtWaitR]) (simp_all add: inbody_def Stop_body_def)
  then show ?thesis by (simp add: s')
next
  case AtStoreDone
  then have "inbody (pcs s t)" by (simp add: inbody_def)
  from stop_inv_inbody [OF assms(1) this] have run: "endOnce (wstate s) = Running" and t: "t = runner s"
    by simp_all
  from assms(2) AtStoreDone
  have s': "s' = goto t AtOnceDone (emit StoreDone (s\<lparr>wstate := (wstate s)\<lparr>done_flag := 1\<rparr>\<rparr>))" by simp
  show ?thesis unfolding s'
    by (rule stop_inv_body_step [OF assms(1) run t AtStoreDone]) (simp_all add: inbody_def Stop_body_def)
next
  case AtOnceDone
  then have "inbody (pcs s t)" by (simp add: inbody_def)
  from stop_inv_inbody [OF assms(1) this] have run: "endOnce (wstate s) = Running" and t: "t = runner s"
    by simp_all
  note r = stop_inv_running [OF assms(1) run]
  from assms(2) AtOnceDone
  have s': "s' = goto t Outside (s\<lparr>wstate := (wstate s)\<lparr>endOnce := Finished\<rparr>\<rparr>)" by simp
  from r t AtOnceDone show ?thesis
    by (simp add: stop_inv_def s' goto_def inbody_def Stop_body_def)
qed

lemma stop_inv_env:
  "stop_inv s \<Longrightarrow> stop_inv (s\<lparr>wstate := (wstate s)\<lparr>endedW := x\<rparr>\<rparr>)"
  "stop_inv s \<Longrightarrow> stop_inv (s\<lparr>wstate := (wstate s)\<lparr>endedR := y\<rparr>\<rparr>)"
  by (cases "endOnce (wstate s)"; simp add: stop_inv_def)+

lemma stop_inv_step:
  assumes "stop_inv s" "stop_step a s = Some s'"
  shows "stop_inv s'"
proof (cases a)
  case (CallStop t)
  with assms show ?thesis by (simp only: stop_inv_call)
next
  case (Advance t)
  with assms show ?thesis by (simp only: stop_inv_advance)
next
  case WriterStarts
  with assms stop_inv_env(1) [OF assms(1)] show ?thesis by auto
next
  case ReaderStarts
  with assms stop_inv_env(2) [OF assms(1)] show ?thesis by auto
next
  case WriterEnds
  with assms stop_inv_env(1) [OF assms(1)] show ?thesis by (auto split: if_splits)
next
  case ReaderEnds
  with assms stop_inv_env(2) [OF assms(1)] show ?thesis by (auto split: if_splits)
qed

lemma stop_inv_run:
  "stop_inv s \<Longrightarrow> stop_run as s = Some s' \<Longrightarrow> stop_inv s'"
proof (induction as arbitrary: s)
  case Nil
  then show ?case by simp
next
  case (Cons a as)
  from Cons.prems(2) obtain s1 where a: "stop_step a s = Some s1" and r: "stop_run as s1 = Some s'"
    by (auto split: option.splits)
  from Cons.IH [OF stop_inv_step [OF Cons.prems(1) a] r] show ?case .
qed

lemma done_kept_step:
  "stop_step a s = Some s' \<Longrightarrow> done_flag (wstate s) = 1 \<Longrightarrow> done_flag (wstate s') = 1"
  by (cases a; cases "endOnce (wstate s)")
     (auto simp add: goto_def emit_def split: if_splits pc.splits)

lemma done_kept_run:
  "stop_run as s = Some s' \<Longrightarrow> done_flag (wstate s) = 1 \<Longrightarrow> done_flag (wstate s') = 1"
proof (induction as arbitrary: s)
  case Nil
  then show ?case by simp
next
  case (Cons a as)
  from Cons.prems(1) obtain s1 where a: "stop_step a s = Some s1" and r: "stop_run as s1 = Some s'"
    by (auto split: option.splits)
  from Cons.IH [OF r done_kept_step [OF a Cons.prems(2)]] show ?case .
qed

lemma stop_run_append:
  "stop_run (as @ bs) s = (case stop_run as s of None \<Rightarrow> None | Some s1 \<Rightarrow> stop_run bs s1)"
  by (induction as arbitrary: s) (auto split: option.splits)

lemma stop_run_snoc:
  "stop_run (as @ [a]) s = Some s' \<Longrightarrow> \<exists>s1. stop_run as s = Some s1 \<and> stop_step a s1 = Some s'"
  by (auto simp add: stop_run_append split: option.splits)

lemma passes_writer_wait:
  assumes "stop_step a s0 = Some s" "WaitEndedW \<notin> set (trace s0)" "WaitEndedW \<in> set (trace s)"
  shows "\<exists>t. a = Advance t \<and> pcs s0 t = AtWaitW \<and> endedW (wstate s0) = 0"
proof (cases a)
  case (CallStop t)
  with assms show ?thesis
    by (cases "endOnce (wstate s0)") (auto simp add: goto_def split: if_splits)
next
  case (Advance t)
  with assms show ?thesis
    by (cases "pcs s0 t") (auto simp add: goto_def emit_def split: if_splits)
qed (use assms in \<open>auto split: if_splits\<close>)

lemma passes_reader_wait:
  assumes "stop_step a s0 = Some s" "WaitEndedR \<notin> set (trace s0)" "WaitEndedR \<in> set (trace s)"
  shows "\<exists>t. a = Advance t \<and> pcs s0 t = AtWaitR \<and> endedR (wstate s0) = 0"
proof (cases a)
  case (CallStop t)
  with assms show ?thesis
    by (cases "endOnce (wstate s0)") (auto simp add: goto_def split: if_splits)
next
  case (Advance t)
  with assms show ?thesis
    by (cases "pcs s0 t") (auto simp add: goto_def emit_def split: if_splits)
qed (use assms in \<open>auto split: if_splits\<close>)

lemma passed_writer_wait:
  "stop_run as s0 = Some s \<Longrightarrow> WaitEndedW \<notin> set (trace s0) \<Longrightarrow> WaitEndedW \<in> set (trace s) \<Longrightarrow>
   \<exists>as1 t as2 s1. as = as1 @ Advance t # as2 \<and> stop_run as1 s0 = Some s1
      \<and> pcs s1 t = AtWaitW \<and> endedW (wstate s1) = 0"
proof (induction as arbitrary: s rule: rev_induct)
  case Nil
  then show ?case by simp
next
  case (snoc a as)
  from stop_run_snoc [OF snoc.prems(1)] obtain s1 where
    r: "stop_run as s0 = Some s1" and st: "stop_step a s1 = Some s" by blast
  show ?case
  proof (cases "WaitEndedW \<in> set (trace s1)")
    case True
    from snoc.IH [OF r snoc.prems(2) True] obtain as1 t as2 s2 where
      "as = as1 @ Advance t # as2" "stop_run as1 s0 = Some s2"
      "pcs s2 t = AtWaitW" "endedW (wstate s2) = 0" by blast
    then have "as @ [a] = as1 @ Advance t # (as2 @ [a]) \<and> stop_run as1 s0 = Some s2
      \<and> pcs s2 t = AtWaitW \<and> endedW (wstate s2) = 0" by simp
    then show ?thesis by blast
  next
    case False
    from passes_writer_wait [OF st False snoc.prems(3)] obtain t where
      "a = Advance t" "pcs s1 t = AtWaitW" "endedW (wstate s1) = 0" by blast
    with r have "as @ [a] = as @ Advance t # [] \<and> stop_run as s0 = Some s1
      \<and> pcs s1 t = AtWaitW \<and> endedW (wstate s1) = 0" by simp
    then show ?thesis by blast
  qed
qed

lemma passed_reader_wait:
  "stop_run as s0 = Some s \<Longrightarrow> WaitEndedR \<notin> set (trace s0) \<Longrightarrow> WaitEndedR \<in> set (trace s) \<Longrightarrow>
   \<exists>as1 t as2 s1. as = as1 @ Advance t # as2 \<and> stop_run as1 s0 = Some s1
      \<and> pcs s1 t = AtWaitR \<and> endedR (wstate s1) = 0"
proof (induction as arbitrary: s rule: rev_induct)
  case Nil
  then show ?case by simp
next
  case (snoc a as)
  from stop_run_snoc [OF snoc.prems(1)] obtain s1 where
    r: "stop_run as s0 = Some s1" and st: "stop_step a s1 = Some s" by blast
  show ?case
  proof (cases "WaitEndedR \<in> set (trace s1)")
    case True
    from snoc.IH [OF r snoc.prems(2) True] obtain as1 t as2 s2 where
      "as = as1 @ Advance t # as2" "stop_run as1 s0 = Some s2"
      "pcs s2 t = AtWaitR" "endedR (wstate s2) = 0" by blast
    then have "as @ [a] = as1 @ Advance t # (as2 @ [a]) \<and> stop_run as1 s0 = Some s2
      \<and> pcs s2 t = AtWaitR \<and> endedR (wstate s2) = 0" by simp
    then show ?thesis by blast
  next
    case False
    from passes_reader_wait [OF st False snoc.prems(3)] obtain t where
      "a = Advance t" "pcs s1 t = AtWaitR" "endedR (wstate s1) = 0" by blast
    with r have "as @ [a] = as @ Advance t # [] \<and> stop_run as s0 = Some s1
      \<and> pcs s1 t = AtWaitR \<and> endedR (wstate s1) = 0" by simp
    then show ?thesis by blast
  qed
qed

lemma waits_before_done:
  assumes f: "endOnce (state cl) = Fresh" and d0: "done_flag (state cl) = 0"
    and run: "stop_run as (world_of cl) = Some s" and d1: "done_flag (wstate s) = 1"
  shows "\<exists>as1 t1 as2 t2 as3 s1 s2. as = as1 @ Advance t1 # as2 @ Advance t2 # as3
      \<and> stop_run as1 (world_of cl) = Some s1
      \<and> pcs s1 t1 = AtWaitW \<and> endedW (wstate s1) = 0 \<and> done_flag (wstate s1) = 0
      \<and> stop_run (as1 @ Advance t1 # as2) (world_of cl) = Some s2
      \<and> pcs s2 t2 = AtWaitR \<and> endedR (wstate s2) = 0 \<and> done_flag (wstate s2) = 0"
proof -
  note i0 = stop_inv_init [OF f d0]
  have inv: "stop_inv s" by (rule stop_inv_run [OF i0 run])
  have t0: "trace (world_of cl) = []" by (simp add: world_of_def)
  have tr: "trace s = Stop_body"
  proof (cases "endOnce (wstate s)")
    case Fresh
    with inv d1 show ?thesis by (simp add: stop_inv_def)
  next
    case Running
    from stop_inv_running(4,5) [OF inv Running] d1 show ?thesis
      by (simp add: Stop_body_def split: if_splits)
  next
    case Finished
    with inv show ?thesis by (simp add: stop_inv_def)
  qed
  then have "WaitEndedR \<in> set (trace s)" by (simp add: Stop_body_def)
  from passed_reader_wait [OF run _ this] t0 obtain bs t2 as3 s2 where
    sp2: "as = bs @ Advance t2 # as3" and r2: "stop_run bs (world_of cl) = Some s2"
    and p2: "pcs s2 t2 = AtWaitR" and e2: "endedR (wstate s2) = 0" by auto
  have inv2: "stop_inv s2" by (rule stop_inv_run [OF i0 r2])
  from p2 have "inbody (pcs s2 t2)" by (simp add: inbody_def)
  from stop_inv_inbody [OF inv2 this] have run2: "endOnce (wstate s2) = Running" and t2: "t2 = runner s2"
    by simp_all
  from stop_inv_running(4,5) [OF inv2 run2] p2 t2
  have tr2: "trace s2 = [ReaderStop, WriterStop, WaitEndedW]" and dn2: "done_flag (wstate s2) = 0"
    by (simp_all add: Stop_body_def)
  from tr2 have "WaitEndedW \<in> set (trace s2)" by simp
  from passed_writer_wait [OF r2 _ this] t0 obtain as1 t1 as2 s1 where
    sp1: "bs = as1 @ Advance t1 # as2" and r1: "stop_run as1 (world_of cl) = Some s1"
    and p1: "pcs s1 t1 = AtWaitW" and e1: "endedW (wstate s1) = 0" by auto
  have inv1: "stop_inv s1" by (rule stop_inv_run [OF i0 r1])
  from p1 have "inbody (pcs s1 t1)" by (simp add: inbody_def)
  from stop_inv_inbody [OF inv1 this] have run1: "endOnce (wstate s1) = Running" and t1: "t1 = runner s1"
    by simp_all
  from stop_inv_running(5) [OF inv1 run1] p1 t1 have dn1: "done_flag (wstate s1) = 0" by simp
  from sp2 sp1 have "as = as1 @ Advance t1 # as2 @ Advance t2 # as3" by simp
  with r1 p1 e1 dn1 r2 sp1 p2 e2 dn2 show ?thesis by blast
qed

lemma support_step:
  assumes "stop_step a s0 = Some s1" "pcs s1 t \<noteq> Outside"
  shows "pcs s0 t \<noteq> Outside \<or> a = CallStop t"
proof (cases a)
  case (CallStop u)
  with assms show ?thesis
    by (cases "endOnce (wstate s0)") (auto simp add: goto_def split: if_splits)
next
  case (Advance u)
  with assms show ?thesis
    by (cases "pcs s0 u") (auto simp add: goto_def emit_def split: if_splits)
qed (use assms in \<open>auto split: if_splits\<close>)

lemma callers_Cons: "t \<in> set (callers as) \<or> a = CallStop t \<Longrightarrow> t \<in> set (callers (a # as))"
  by (cases a) auto

lemma support_run:
  "stop_run as s0 = Some s \<Longrightarrow> pcs s t \<noteq> Outside \<Longrightarrow>
   pcs s0 t \<noteq> Outside \<or> t \<in> set (callers as)"
proof (induction as arbitrary: s0)
  case Nil
  then show ?case by simp
next
  case (Cons a as)
  from Cons.prems(1) obtain s1 where st: "stop_step a s0 = Some s1" and r: "stop_run as s1 = Some s"
    by (auto split: option.splits)
  from Cons.IH [OF r Cons.prems(2)] have "pcs s1 t \<noteq> Outside \<or> t \<in> set (callers as)" .
  then show ?case
  proof
    assume "pcs s1 t \<noteq> Outside"
    from support_step [OF st this] show ?thesis by (auto intro: callers_Cons)
  next
    assume "t \<in> set (callers as)"
    then show ?thesis by (auto intro: callers_Cons)
  qed
qed

lemma finish_runner:
  assumes p: "pcs s r = p" and ib: "inbody p"
    and w0: "endedW (wstate s) = 0" and r0: "endedR (wstate s) = 0"
    and dn: "p = AtOnceDone \<longrightarrow> done_flag (wstate s) = 1"
  shows "\<exists>bs s'. (\<forall>b \<in> set bs. b = Advance r) \<and> stop_run bs s = Some s'
     \<and> endOnce (wstate s') = Finished \<and> done_flag (wstate s') = 1
     \<and> pcs s' = (pcs s)(r := Outside) \<and> calls s' = calls s"
proof (cases p)
  case Outside
  with ib show ?thesis by (simp add: inbody_def)
next
  case AtOnceWait
  with ib show ?thesis by (simp add: inbody_def)
next
  case AtReaderStop
  let ?bs = "[Advance r, Advance r, Advance r, Advance r, Advance r, Advance r]"
  have "\<exists>s'. stop_run ?bs s = Some s' \<and> endOnce (wstate s') = Finished \<and> done_flag (wstate s') = 1
     \<and> pcs s' = (pcs s)(r := Outside) \<and> calls s' = calls s"
    using p AtReaderStop w0 r0 by (simp add: goto_def emit_def)
  then show ?thesis by (intro exI [of _ ?bs]) auto
next
  case AtWriterStop
  let ?bs = "[Advance r, Advance r, Advance r, Advance r, Advance r]"
  have "\<exists>s'. stop_run ?bs s = Some s' \<and> endOnce (wstate s') = Finished \<and> done_flag (wstate s') = 1
     \<and> pcs s' = (pcs s)(r := Outside) \<and> calls s' = calls s"
    using p AtWriterStop w0 r0 by (simp add: goto_def emit_def)
  then show ?thesis by (intro exI [of _ ?bs]) auto
next
  case AtWaitW
  let ?bs = "[Advance r, Advance r, Advance r, Advance r]"
  have "\<exists>s'. stop_run ?bs s = Some s' \<and> endOnce (wstate s') = Finished \<and> done_flag (wstate s') = 1
     \<and> pcs s' = (pcs s)(r := Outside) \<and> calls s' = calls s"
    using p AtWaitW w0 r0 by (simp add: goto_def emit_def)
  then show ?thesis by (intro exI [of _ ?bs]) auto
next
  case AtWaitR
  let ?bs = "[Advance r, Advance r, Advance r]"
  have "\<exists>s'. stop_run ?bs s = Some s' \<and> endOnce (wstate s') = Finished \<and> done_flag (wstate s') = 1
     \<and> pcs s' = (pcs s)(r := Outside) \<and> calls s' = calls s"
    using p AtWaitR w0 r0 by (simp add: goto_def emit_def)
  then show ?thesis by (intro exI [of _ ?bs]) auto
next
  case AtStoreDone
  let ?bs = "[Advance r, Advance r]"
  have "\<exists>s'. stop_run ?bs s = Some s' \<and> endOnce (wstate s') = Finished \<and> done_flag (wstate s') = 1
     \<and> pcs s' = (pcs s)(r := Outside) \<and> calls s' = calls s"
    using p AtStoreDone by (simp add: goto_def emit_def)
  then show ?thesis by (intro exI [of _ ?bs]) auto
next
  case AtOnceDone
  let ?bs = "[Advance r]"
  have "\<exists>s'. stop_run ?bs s = Some s' \<and> endOnce (wstate s') = Finished \<and> done_flag (wstate s') = 1
     \<and> pcs s' = (pcs s)(r := Outside) \<and> calls s' = calls s"
    using p AtOnceDone dn by (simp add: goto_def emit_def)
  then show ?thesis by (intro exI [of _ ?bs]) auto
qed

lemma return_waiters:
  "distinct ts \<Longrightarrow> endOnce (wstate s) = Finished \<Longrightarrow>
   \<exists>s'. stop_run (map Advance (filter (\<lambda>t. pcs s t = AtOnceWait) ts)) s = Some s'
      \<and> wstate s' = wstate s \<and> calls s' = calls s
      \<and> (\<forall>t. pcs s' t = (if t \<in> set ts \<and> pcs s t = AtOnceWait then Outside else pcs s t))"
proof (induction ts arbitrary: s)
  case Nil
  then show ?case by simp
next
  case (Cons u ts)
  from Cons.prems have nu: "u \<notin> set ts" and dt: "distinct ts" by simp_all
  show ?case
  proof (cases "pcs s u = AtOnceWait")
    case False
    from Cons.IH [OF dt Cons.prems(2)] obtain s' where
      "stop_run (map Advance (filter (\<lambda>t. pcs s t = AtOnceWait) ts)) s = Some s'"
      "wstate s' = wstate s" "calls s' = calls s"
      "\<forall>t. pcs s' t = (if t \<in> set ts \<and> pcs s t = AtOnceWait then Outside else pcs s t)"
      by blast
    with False show ?thesis by auto
  next
    case True
    let ?s1 = "goto u Outside s"
    have st: "stop_step (Advance u) s = Some ?s1"
      using True Cons.prems(2) by simp
    have f1: "endOnce (wstate ?s1) = Finished" using Cons.prems(2) by (simp add: goto_def)
    have same: "filter (\<lambda>t. pcs ?s1 t = AtOnceWait) ts = filter (\<lambda>t. pcs s t = AtOnceWait) ts"
      using nu by (intro filter_cong) (auto simp add: goto_def)
    from Cons.IH [OF dt f1] obtain s' where
      r: "stop_run (map Advance (filter (\<lambda>t. pcs ?s1 t = AtOnceWait) ts)) ?s1 = Some s'"
      and w: "wstate s' = wstate ?s1" and c: "calls s' = calls ?s1"
      and pc: "\<forall>t. pcs s' t = (if t \<in> set ts \<and> pcs ?s1 t = AtOnceWait then Outside else pcs ?s1 t)"
      by blast
    have run: "stop_run (map Advance (filter (\<lambda>t. pcs s t = AtOnceWait) (u # ts))) s = Some s'"
      using True st r by (simp add: same)
    have pc': "\<forall>t. pcs s' t = (if t \<in> set (u # ts) \<and> pcs s t = AtOnceWait then Outside else pcs s t)"
      using pc True by (auto simp add: goto_def)
    from run w c pc' show ?thesis by (auto simp add: goto_def)
  qed
qed

lemma all_return_Finished:
  assumes f: "endOnce (wstate s1) = Finished" and d: "done_flag (wstate s1) = 1"
    and nb: "\<forall>t. \<not> inbody (pcs s1 t)" and sp: "\<forall>t. pcs s1 t \<noteq> Outside \<longrightarrow> t \<in> set ts"
  shows "\<exists>bs s'. (\<forall>b \<in> set bs. \<exists>t. b = Advance t) \<and> stop_run bs s1 = Some s'
     \<and> (\<forall>t. pcs s' t = Outside) \<and> calls s' = calls s1
     \<and> done_flag (wstate s') = 1 \<and> endOnce (wstate s') = Finished"
proof -
  let ?bs = "map Advance (filter (\<lambda>t. pcs s1 t = AtOnceWait) (remdups ts))"
  from return_waiters [OF distinct_remdups f, of ts] obtain s' where
    r: "stop_run ?bs s1 = Some s'" and w: "wstate s' = wstate s1" and c: "calls s' = calls s1"
    and pc: "\<forall>t. pcs s' t = (if t \<in> set (remdups ts) \<and> pcs s1 t = AtOnceWait then Outside else pcs s1 t)"
    by blast
  have o: "pcs s' t = Outside" for t
  proof (cases "pcs s1 t = Outside")
    case True
    with pc show ?thesis by simp
  next
    case False
    with nb have "pcs s1 t = AtOnceWait" by (auto simp add: inbody_def)
    moreover from False sp have "t \<in> set (remdups ts)" by simp
    ultimately show ?thesis using pc by simp
  qed
  have a: "\<forall>b \<in> set ?bs. \<exists>t. b = Advance t" by auto
  have "(\<forall>b \<in> set ?bs. \<exists>t. b = Advance t) \<and> stop_run ?bs s1 = Some s'
     \<and> (\<forall>t. pcs s' t = Outside) \<and> calls s' = calls s1
     \<and> done_flag (wstate s') = 1 \<and> endOnce (wstate s') = Finished"
    using a r o c w f d by simp
  then show ?thesis by (intro exI [of _ ?bs] exI [of _ s'])
qed

lemma all_return:
  assumes inv: "stop_inv s"
    and sup: "\<forall>t. pcs s t \<noteq> Outside \<longrightarrow> t \<in> set ts"
    and w0: "endedW (wstate s) = 0" and r0: "endedR (wstate s) = 0"
  shows "\<exists>bs s'. (\<forall>b \<in> set bs. \<exists>t. b = Advance t) \<and> stop_run bs s = Some s'
     \<and> (\<forall>t. pcs s' t = Outside) \<and> calls s' = calls s
     \<and> (0 < calls s \<longrightarrow> done_flag (wstate s') = 1 \<and> endOnce (wstate s') = Finished)"
proof (cases "endOnce (wstate s)")
  case Fresh
  with inv have "calls s = 0" "\<forall>t. pcs s t = Outside" by (simp_all add: stop_inv_def)
  then have "(\<forall>b \<in> set []. \<exists>t. b = Advance t) \<and> stop_run [] s = Some s
     \<and> (\<forall>t. pcs s t = Outside) \<and> calls s = calls s
     \<and> (0 < calls s \<longrightarrow> done_flag (wstate s) = 1 \<and> endOnce (wstate s) = Finished)"
    by simp
  then show ?thesis by (intro exI [of _ "[]"] exI [of _ s])
next
  case Finished
  with inv have d: "done_flag (wstate s) = 1" and nb: "\<forall>t. \<not> inbody (pcs s t)"
    by (simp_all add: stop_inv_def)
  from all_return_Finished [OF Finished d nb sup] obtain bs s' where
    "(\<forall>b \<in> set bs. \<exists>t. b = Advance t) \<and> stop_run bs s = Some s'
     \<and> (\<forall>t. pcs s' t = Outside) \<and> calls s' = calls s
     \<and> done_flag (wstate s') = 1 \<and> endOnce (wstate s') = Finished"
    by (elim exE)
  then have "(\<forall>b \<in> set bs. \<exists>t. b = Advance t) \<and> stop_run bs s = Some s'
     \<and> (\<forall>t. pcs s' t = Outside) \<and> calls s' = calls s
     \<and> (0 < calls s \<longrightarrow> done_flag (wstate s') = 1 \<and> endOnce (wstate s') = Finished)"
    by simp
  then show ?thesis by (intro exI [of _ bs] exI [of _ s'])
next
  case Running
  note rn = stop_inv_running [OF inv Running]
  from inv Running have ib: "inbody (pcs s (runner s))" by (simp add: stop_inv_def)
  have dn: "pcs s (runner s) = AtOnceDone \<longrightarrow> done_flag (wstate s) = 1"
    using rn(5) by simp
  from finish_runner [OF refl ib w0 r0 dn] obtain bs1 s1 where
    h1: "(\<forall>b \<in> set bs1. b = Advance (runner s)) \<and> stop_run bs1 s = Some s1
     \<and> endOnce (wstate s1) = Finished \<and> done_flag (wstate s1) = 1
     \<and> pcs s1 = (pcs s)(runner s := Outside) \<and> calls s1 = calls s"
    by (elim exE)
  then have a1: "\<forall>b \<in> set bs1. b = Advance (runner s)" and r1: "stop_run bs1 s = Some s1"
    and f1: "endOnce (wstate s1) = Finished" and d1: "done_flag (wstate s1) = 1"
    and p1: "pcs s1 = (pcs s)(runner s := Outside)" and c1: "calls s1 = calls s"
    by simp_all
  have nb1: "\<forall>t. \<not> inbody (pcs s1 t)"
    using rn(3) by (simp add: p1 inbody_def)
  have sp1: "\<forall>t. pcs s1 t \<noteq> Outside \<longrightarrow> t \<in> set ts"
    using sup by (simp add: p1)
  from all_return_Finished [OF f1 d1 nb1 sp1] obtain bs2 s' where
    h2: "(\<forall>b \<in> set bs2. \<exists>t. b = Advance t) \<and> stop_run bs2 s1 = Some s'
     \<and> (\<forall>t. pcs s' t = Outside) \<and> calls s' = calls s1
     \<and> done_flag (wstate s') = 1 \<and> endOnce (wstate s') = Finished"
    by (elim exE)
  have r: "stop_run (bs1 @ bs2) s = Some s'" using r1 h2 by (simp add: stop_run_append)
  have a: "\<forall>b \<in> set (bs1 @ bs2). \<exists>t. b = Advance t" using a1 h2 by auto
  have "(\<forall>b \<in> set (bs1 @ bs2). \<exists>t. b = Advance t) \<and> stop_run (bs1 @ bs2) s = Some s'
     \<and> (\<forall>t. pcs s' t = Outside) \<and> calls s' = calls s
     \<and> (0 < calls s \<longrightarrow> done_flag (wstate s') = 1 \<and> endOnce (wstate s') = Finished)"
    using a r h2 c1 by simp
  then show ?thesis by (intro exI [of _ "bs1 @ bs2"] exI [of _ s'])
qed

lemma count_StoreDone:
  "length (filter (\<lambda>e. e = StoreDone) (take (pos p) Stop_body)) = (if p = AtOnceDone then 1 else 0)"
  by (cases p) (simp_all add: Stop_body_def)

text \<open>
  C9. In every run from a client whose gate is fresh and whose done flag is 0, whatever
  the tasks and the order of their turns: the body has been entered exactly once as soon
  as one call of \<^verbatim>\<open>Stop\<close> has begun, however many calls there are; the done flag is 0 or
  1 and has been stored exactly once when it is 1 and not at all otherwise; the effects of the
  body so far are a prefix of stop reader, stop writer, wait for the writer's end, wait
  for the reader's end, store done. When the flag is 1 all five have happened, in this
  order, and the run passed the two waits at earlier turns: first a turn of a task at the
  writer's wait, taken when the counter \<open>endedW\<close> was 0, later a turn of a task at the
  reader's wait, taken when the counter \<open>endedR\<close> was 0, the flag being 0 at both.
  Once every call has returned the flag is 1. When both counters are 0, the tasks inside
  \<^verbatim>\<open>Stop\<close> can all return by turns of their own, and the flag is 1 then if a call was
  made. A flag that is 1 stays 1 in every continuation of the run.
\<close>

theorem Stop_once:
  assumes "endOnce (state cl) = Fresh" "done_flag (state cl) = 0"
    and "stop_run as (world_of cl) = Some s"
  shows "bodies s = (if calls s = 0 then 0 else 1)
     \<and> (done_flag (wstate s) = 0 \<or> done_flag (wstate s) = 1)
     \<and> length (filter (\<lambda>e. e = StoreDone) (trace s)) = (if done_flag (wstate s) = 1 then 1 else 0)
     \<and> (\<exists>n. trace s = take n [ReaderStop, WriterStop, WaitEndedW, WaitEndedR, StoreDone])
     \<and> (done_flag (wstate s) = 1 \<longrightarrow>
          trace s = [ReaderStop, WriterStop, WaitEndedW, WaitEndedR, StoreDone]
          \<and> (\<exists>as1 t1 as2 t2 as3 s1 s2. as = as1 @ Advance t1 # as2 @ Advance t2 # as3
                \<and> stop_run as1 (world_of cl) = Some s1
                \<and> pcs s1 t1 = AtWaitW \<and> endedW (wstate s1) = 0 \<and> done_flag (wstate s1) = 0
                \<and> stop_run (as1 @ Advance t1 # as2) (world_of cl) = Some s2
                \<and> pcs s2 t2 = AtWaitR \<and> endedR (wstate s2) = 0 \<and> done_flag (wstate s2) = 0))
     \<and> (0 < calls s \<and> (\<forall>t. pcs s t = Outside) \<longrightarrow>
          done_flag (wstate s) = 1 \<and> endOnce (wstate s) = Finished)
     \<and> (endedW (wstate s) = 0 \<and> endedR (wstate s) = 0 \<longrightarrow>
          (\<exists>bs s'. (\<forall>b \<in> set bs. \<exists>t. b = Advance t) \<and> stop_run bs s = Some s'
             \<and> (\<forall>t. pcs s' t = Outside) \<and> calls s' = calls s
             \<and> (0 < calls s \<longrightarrow> done_flag (wstate s') = 1 \<and> endOnce (wstate s') = Finished)))
     \<and> (\<forall>bs s'. stop_run bs s = Some s' \<and> done_flag (wstate s) = 1 \<longrightarrow>
          done_flag (wstate s') = 1)"
proof -
  have inv: "stop_inv s"
    by (rule stop_inv_run [OF stop_inv_init [OF assms(1,2)] assms(3)])
  have kept: "\<forall>bs s'. stop_run bs s = Some s' \<and> done_flag (wstate s) = 1 \<longrightarrow>
          done_flag (wstate s') = 1"
    using done_kept_run by blast
  have waits: "done_flag (wstate s) = 1 \<longrightarrow>
          (\<exists>as1 t1 as2 t2 as3 s1 s2. as = as1 @ Advance t1 # as2 @ Advance t2 # as3
                \<and> stop_run as1 (world_of cl) = Some s1
                \<and> pcs s1 t1 = AtWaitW \<and> endedW (wstate s1) = 0 \<and> done_flag (wstate s1) = 0
                \<and> stop_run (as1 @ Advance t1 # as2) (world_of cl) = Some s2
                \<and> pcs s2 t2 = AtWaitR \<and> endedR (wstate s2) = 0 \<and> done_flag (wstate s2) = 0)"
    using waits_before_done [OF assms] by (intro impI)
  have sup: "\<forall>t. pcs s t \<noteq> Outside \<longrightarrow> t \<in> set (callers as)"
  proof (intro allI impI)
    fix t assume "pcs s t \<noteq> Outside"
    from support_run [OF assms(3) this] show "t \<in> set (callers as)"
      by (simp add: world_of_def)
  qed
  have prog: "endedW (wstate s) = 0 \<and> endedR (wstate s) = 0 \<longrightarrow>
          (\<exists>bs s'. (\<forall>b \<in> set bs. \<exists>t. b = Advance t) \<and> stop_run bs s = Some s'
             \<and> (\<forall>t. pcs s' t = Outside) \<and> calls s' = calls s
             \<and> (0 < calls s \<longrightarrow> done_flag (wstate s') = 1 \<and> endOnce (wstate s') = Finished))"
    using all_return [OF inv sup] by (intro impI) simp
  have rest: "bodies s = (if calls s = 0 then 0 else 1)
     \<and> (done_flag (wstate s) = 0 \<or> done_flag (wstate s) = 1)
     \<and> length (filter (\<lambda>e. e = StoreDone) (trace s)) = (if done_flag (wstate s) = 1 then 1 else 0)
     \<and> (\<exists>n. trace s = take n [ReaderStop, WriterStop, WaitEndedW, WaitEndedR, StoreDone])
     \<and> (done_flag (wstate s) = 1 \<longrightarrow>
          trace s = [ReaderStop, WriterStop, WaitEndedW, WaitEndedR, StoreDone])
     \<and> (0 < calls s \<and> (\<forall>t. pcs s t = Outside) \<longrightarrow>
          done_flag (wstate s) = 1 \<and> endOnce (wstate s) = Finished)"
  proof (cases "endOnce (wstate s)")
    case Fresh
    with inv have "calls s = 0" "bodies s = 0" "trace s = []" "done_flag (wstate s) = 0"
      by (simp_all add: stop_inv_def)
    then show ?thesis by simp
  next
    case Running
    note r = stop_inv_running [OF inv Running]
    from inv Running have ib: "inbody (pcs s (runner s))" by (simp add: stop_inv_def)
    have 1: "bodies s = (if calls s = 0 then 0 else 1)" using r(1,2) by simp
    have 2: "done_flag (wstate s) = 0 \<or> done_flag (wstate s) = 1" using r(5) by simp
    have 3: "length (filter (\<lambda>e. e = StoreDone) (trace s)) = (if done_flag (wstate s) = 1 then 1 else 0)"
      using r(4,5) by (simp add: count_StoreDone)
    have 4: "\<exists>n. trace s = take n [ReaderStop, WriterStop, WaitEndedW, WaitEndedR, StoreDone]"
      using r(4) unfolding Stop_body_def by blast
    have 5: "done_flag (wstate s) = 1 \<longrightarrow>
          trace s = [ReaderStop, WriterStop, WaitEndedW, WaitEndedR, StoreDone]"
      using r(4,5) by (simp add: Stop_body_def split: if_splits)
    have 6: "0 < calls s \<and> (\<forall>t. pcs s t = Outside) \<longrightarrow>
          done_flag (wstate s) = 1 \<and> endOnce (wstate s) = Finished"
      using ib by (auto simp add: inbody_def)
    from 1 2 3 4 5 6 show ?thesis by blast
  next
    case Finished
    with inv have f: "0 < calls s" "bodies s = 1" "trace s = Stop_body" "done_flag (wstate s) = 1"
      by (simp_all add: stop_inv_def)
    have "trace s = take 5 [ReaderStop, WriterStop, WaitEndedW, WaitEndedR, StoreDone]"
      using f(3) by (simp add: Stop_body_def)
    then have 4: "\<exists>n. trace s = take n [ReaderStop, WriterStop, WaitEndedW, WaitEndedR, StoreDone]"
      by blast
    from f 4 Finished show ?thesis by (simp add: Stop_body_def)
  qed
  from rest waits prog kept show ?thesis by simp
qed

lemma ex_schedule_run:
  "\<exists>s. stop_run ex_schedule (world_of ex_client) = Some s \<and> calls s = 4
        \<and> (\<forall>t. pcs s t = Outside)"
  by (simp add: ex_schedule_def world_of_def ex_client_def NewClient_def refreshDeadline_def
      goto_def emit_def)

theorem Stop_once_witness:
  "endOnce (state ex_client) = Fresh \<and> done_flag (state ex_client) = 0
   \<and> calls (the (stop_run ex_schedule (world_of ex_client))) = 4
   \<and> bodies (the (stop_run ex_schedule (world_of ex_client))) = 1
   \<and> done_flag (wstate (the (stop_run ex_schedule (world_of ex_client)))) = 1
   \<and> trace (the (stop_run ex_schedule (world_of ex_client))) =
       [ReaderStop, WriterStop, WaitEndedW, WaitEndedR, StoreDone]"
proof -
  have f: "endOnce (state ex_client) = Fresh" and d: "done_flag (state ex_client) = 0"
    by (simp_all add: ex_client_def NewClient_def refreshDeadline_def)
  from ex_schedule_run obtain s where
    r: "stop_run ex_schedule (world_of ex_client) = Some s" and c: "calls s = 4"
    and o: "\<forall>t. pcs s t = Outside"
    by blast
  from Stop_once [OF f d r]
  have b: "bodies s = (if calls s = 0 then 0 else 1)"
    and dn: "0 < calls s \<and> (\<forall>t. pcs s t = Outside) \<longrightarrow>
          done_flag (wstate s) = 1 \<and> endOnce (wstate s) = Finished"
    and tr: "done_flag (wstate s) = 1 \<longrightarrow>
          trace s = [ReaderStop, WriterStop, WaitEndedW, WaitEndedR, StoreDone]
          \<and> (\<exists>as1 t1 as2 t2 as3 s1 s2. ex_schedule = as1 @ Advance t1 # as2 @ Advance t2 # as3
                \<and> stop_run as1 (world_of ex_client) = Some s1
                \<and> pcs s1 t1 = AtWaitW \<and> endedW (wstate s1) = 0 \<and> done_flag (wstate s1) = 0
                \<and> stop_run (as1 @ Advance t1 # as2) (world_of ex_client) = Some s2
                \<and> pcs s2 t2 = AtWaitR \<and> endedR (wstate s2) = 0 \<and> done_flag (wstate s2) = 0)"
    by simp_all
  from b c have 1: "bodies s = 1" by simp
  from dn c o have 2: "done_flag (wstate s) = 1" by simp
  from tr 2 have 3: "trace s = [ReaderStop, WriterStop, WaitEndedW, WaitEndedR, StoreDone]" by simp
  from f d r c 1 2 3 show ?thesis by simp
qed

text \<open>
  No other operation of the client writes its state: the done flag changes in
  \<^verbatim>\<open>Stop\<close> only.
\<close>

lemma state_refreshDeadline: "state (refreshDeadline now ka cl) = state cl"
  by (simp add: refreshDeadline_def split: option.splits)

lemma state_NextPacketID: "state (fst (NextPacketID cl)) = state cl"
  by (simp add: NextPacketID_def Let_def)

lemma state_WritePacket: "state (fst (WritePacket enc wfn now cl pk)) = state cl"
  by (auto simp add: WritePacket_def Let_def state_refreshDeadline
      split: sum.splits option.splits prod.splits)

lemma state_ReadPacket: "state (fst (ReadPacket dec cl fh)) = state cl"
  by (auto simp add: ReadPacket_def Let_def split: sum.splits prod.splits)

lemma state_Identify: "state (Identify xid now lid pk cl) = state cl"
  by (simp add: Identify_def Let_def state_refreshDeadline)

end
